theory Spec2Isabelle
  imports Main
begin

section \<open>Paths and the file system\<close>

text \<open>
  Both scripts work on \<^verbatim>\<open>pathlib.Path\<close> values. A path is modelled by its
  \<^verbatim>\<open>parts\<close>: the list of its components, an absolute path starting with the
  component \<^verbatim>\<open>/\<close>. Paths are compared as pathlib compares them, component by
  component: \<^verbatim>\<open>..\<close> and symbolic links are not resolved.

  File contents are bytes; a \<open>char\<close> of HOL is one byte.
\<close>

type_synonym bytes = string

type_synonym path = "string list"

datatype node = File bytes | Dir

type_synonym fs = "path \<rightharpoonup> node"

text \<open>The exceptions of Python that the modelled code can meet.\<close>

datatype py_exn =
    ValueError string
  | FileNotFoundError path
  | IsADirectoryError path
  | FileExistsError path
  | KeyError string
  | DecodeError string

text \<open>\<^verbatim>\<open>"/".join(parts)\<close>.\<close>

fun join_slash :: "string list \<Rightarrow> string" where
  "join_slash [] = []"
| "join_slash [c] = c"
| "join_slash (c # d # cs) = c @ ''/'' @ join_slash (d # cs)"

text \<open>\<^verbatim>\<open>str(path)\<close>: the empty path prints as \<^verbatim>\<open>.\<close>, an absolute one starts with the root.\<close>

definition path_str :: "path \<Rightarrow> string" where
  "path_str p =
     (case p of
        [] \<Rightarrow> ''.''
      | c # cs \<Rightarrow> if c = ''/'' then ''/'' @ join_slash cs else join_slash (c # cs))"

text \<open>\<^verbatim>\<open>path.name\<close>: the last component, empty for \<^verbatim>\<open>.\<close> and for the root.\<close>

definition path_name :: "path \<Rightarrow> string" where
  "path_name p = (if p = [] \<or> p = [''/''] then [] else last p)"

text \<open>
  \<^verbatim>\<open>path.stem\<close>: with \<open>i = name.rfind('.')\<close>, the name up to \<open>i\<close> when
  \<open>0 < i < len(name) - 1\<close>, the whole name otherwise.
\<close>

definition py_stem :: "string \<Rightarrow> string" where
  "py_stem name =
     (if CHR ''.'' \<notin> set name then name
      else
        let after = length (takeWhile (\<lambda>c. c \<noteq> CHR ''.'') (rev name));
            i = length name - after - 1
        in if 0 < i \<and> i < length name - 1 then take i name else name)"

text \<open>
  \<^verbatim>\<open>path.with_suffix('')\<close>: the last suffix of the name removed; a path with an empty
  name raises \<^verbatim>\<open>ValueError\<close>.
\<close>

definition with_suffix_empty :: "path \<Rightarrow> py_exn + path" where
  "with_suffix_empty p =
     (if path_name p = [] then Inl (ValueError (path_str p))
      else Inr (butlast p @ [py_stem (path_name p)]))"

definition exists :: "fs \<Rightarrow> path \<Rightarrow> bool" where
  "exists fs p = (fs p \<noteq> None)"

text \<open>
  \<^verbatim>\<open>path.unlink()\<close>: removes a regular file; a missing path and a directory raise.
\<close>

definition unlink :: "fs \<Rightarrow> path \<Rightarrow> py_exn + fs" where
  "unlink fs p =
     (case fs p of
        None \<Rightarrow> Inl (FileNotFoundError p)
      | Some Dir \<Rightarrow> Inl (IsADirectoryError p)
      | Some (File _) \<Rightarrow> Inr (fs(p := None)))"

text \<open>\<^verbatim>\<open>str(e)\<close> of an exception, as it ends up in a message.\<close>

fun str_exn :: "py_exn \<Rightarrow> string" where
  "str_exn (ValueError m) = m"
| "str_exn (FileNotFoundError p) =
     ''[Errno 2] No such file or directory: '' @ [CHR 0x27] @ path_str p @ [CHR 0x27]"
| "str_exn (IsADirectoryError p) =
     ''[Errno 21] Is a directory: '' @ [CHR 0x27] @ path_str p @ [CHR 0x27]"
| "str_exn (FileExistsError p) =
     ''[Errno 17] File exists: '' @ [CHR 0x27] @ path_str p @ [CHR 0x27]"
| "str_exn (KeyError m) = m"
| "str_exn (DecodeError m) = m"

section \<open>mapzen\_downloader.py: the decompressor\<close>

text \<open>
  \<^verbatim>\<open>gzip.open\<close> with \<^verbatim>\<open>shutil.copyfileobj\<close> is library code: it is the parameter
  \<open>gunzip\<close>, which maps the bytes of the compressed file to the bytes the stream
  delivers and, when the stream breaks (a bad header, a truncated member, a wrong
  checksum), the text of the exception. The bytes delivered before the exception have
  been written to the output file, which the \<^verbatim>\<open>with\<close> block closes.

  \<^verbatim>\<open>extract_gz_file\<close> returns a pair of a flag and a message. The existence checks, the
  \<^verbatim>\<open>with_suffix\<close> call and the first \<^verbatim>\<open>unlink\<close> stand outside the \<^verbatim>\<open>try\<close> block: an
  exception there leaves the function, which is the result \<open>Inl\<close>.
\<close>

type_synonym gunzip = "bytes \<Rightarrow> bytes \<times> string option"

definition extract_gz_file :: "gunzip \<Rightarrow> fs \<Rightarrow> path \<Rightarrow> (py_exn + bool \<times> string) \<times> fs" where
  "extract_gz_file gunzip fs gz_path =
     (case with_suffix_empty gz_path of
        Inl e \<Rightarrow> (Inl e, fs)
      | Inr output_path \<Rightarrow>
          if exists fs output_path then
            (if exists fs gz_path then
               (case unlink fs gz_path of
                  Inl e \<Rightarrow> (Inl e, fs)
                | Inr fs' \<Rightarrow>
                    (Inr (True, ''Already extracted: '' @ path_name output_path), fs'))
             else (Inr (True, ''Already extracted: '' @ path_name output_path), fs))
          else
            (case fs gz_path of
               None \<Rightarrow>
                 (Inr (False, path_str gz_path @ '': '' @ str_exn (FileNotFoundError gz_path)), fs)
             | Some Dir \<Rightarrow>
                 (Inr (False, path_str gz_path @ '': '' @ str_exn (IsADirectoryError gz_path)), fs)
             | Some (File z) \<Rightarrow>
                 (case gunzip z of
                    (d, Some err) \<Rightarrow>
                      (Inr (False, path_str gz_path @ '': '' @ err),
                       fs(output_path \<mapsto> File d))
                  | (d, None) \<Rightarrow>
                      (case unlink (fs(output_path \<mapsto> File d)) gz_path of
                         Inl e \<Rightarrow>
                           (Inr (False, path_str gz_path @ '': '' @ str_exn e),
                            fs(output_path \<mapsto> File d))
                       | Inr fs' \<Rightarrow> (Inr (True, path_str gz_path), fs')))))"

section \<open>mapzen\_downloader.py: the batch scheduler\<close>

text \<open>
  The global \<^verbatim>\<open>shutdown_requested\<close> is set by the signal handler and never reset. The
  program reads it at the head of every batch, after every completed task, before the
  pause between two batches and for the summary. The reads of one run are numbered in
  the order in which they happen; \<open>sig\<close> is the number of the first read that sees the
  flag raised (\<open>None\<close> when no signal arrives during the run), so every later read sees
  it raised too.
\<close>

definition shutdown_requested :: "nat option \<Rightarrow> nat \<Rightarrow> bool" where
  "shutdown_requested sig r = (case sig of None \<Rightarrow> False | Some k \<Rightarrow> k \<le> r)"

text \<open>
  The state of a run: the file system, the number of reads of the flag so far, the tasks
  that have run (in order), the batches that have been started, each with the number of
  the read at its head, and the number of pauses (\<^verbatim>\<open>time.sleep(1)\<close>) taken.
\<close>

record mz_state =
  mz_files :: fs
  reads :: nat
  ran :: "path list"
  started :: "(nat \<times> nat) list"
  pauses :: nat

text \<open>
  The thread pool runs \<^verbatim>\<open>extract_gz_file\<close> for the files of a batch. Here the tasks run
  one after the other in the order of the batch, each as one step, and complete in that
  order. \<open>run_all\<close> runs tasks whose results nobody collects.
\<close>

fun run_all :: "gunzip \<Rightarrow> path list \<Rightarrow> mz_state \<Rightarrow> mz_state" where
  "run_all gunzip [] st = st"
| "run_all gunzip (gz_file # rest) st =
     run_all gunzip rest
       (st\<lparr>mz_files := snd (extract_gz_file gunzip (mz_files st) gz_file),
           ran := ran st @ [gz_file]\<rparr>)"

text \<open>
  The loop \<^verbatim>\<open>for i, future in enumerate(as_completed(futures))\<close> of \<^verbatim>\<open>process_batch\<close>,
  with the counter \<^verbatim>\<open>successful\<close> and the list \<^verbatim>\<open>failed\<close>. A task has completed; the
  flag is read. When it is raised, every future is cancelled and the loop is left: the
  tasks not yet started never run, the tasks already started run to their end when the
  \<^verbatim>\<open>with\<close> block closes the pool. How many tasks beyond the completed one have been
  started at that moment is up to the pool: it is the parameter \<open>inflight\<close>. The result
  of the completed task is not collected. When \<^verbatim>\<open>future.result()\<close> raises, the exception
  leaves \<^verbatim>\<open>process_batch\<close> after the pool has run the remaining tasks.
\<close>

primrec collect :: "gunzip \<Rightarrow> nat option \<Rightarrow> nat \<Rightarrow> path list \<Rightarrow> mz_state \<Rightarrow> nat \<Rightarrow> string list \<Rightarrow> (py_exn + nat \<times> string list) \<times> mz_state" where
  "collect gunzip sig inflight [] st successful failed = (Inr (successful, failed), st)"
| "collect gunzip sig inflight (gz_file # rest) st successful failed =
     (let (res, fs1) = extract_gz_file gunzip (mz_files st) gz_file;
          st1 = st\<lparr>mz_files := fs1, ran := ran st @ [gz_file], reads := reads st + 1\<rparr>
      in if shutdown_requested sig (reads st)
         then (Inr (successful, failed), run_all gunzip (take inflight rest) st1)
         else
           (case res of
              Inl e \<Rightarrow> (Inl e, run_all gunzip rest st1)
            | Inr (success, result) \<Rightarrow>
                if success then collect gunzip sig inflight rest st1 (successful + 1) failed
                else collect gunzip sig inflight rest st1 successful (failed @ [result])))"

definition process_batch :: "gunzip \<Rightarrow> nat option \<Rightarrow> nat \<Rightarrow> path list \<Rightarrow> mz_state \<Rightarrow> (py_exn + nat \<times> string list) \<times> mz_state" where
  "process_batch gunzip sig inflight gz_files_batch st =
     collect gunzip sig inflight gz_files_batch st 0 []"

text \<open>
  The loop \<^verbatim>\<open>for batch_num in range(1, total_batches + 1)\<close> of \<^verbatim>\<open>main\<close>, with the totals.
  The batch is \<^verbatim>\<open>gz_files[start_idx:end_idx]\<close>. An exception of \<^verbatim>\<open>process_batch\<close> ends
  the program. \<^verbatim>\<open>main\<close> sets \<^verbatim>\<open>batch_size\<close> to 1000; here it is a parameter.
\<close>

primrec batch_loop :: "nat \<Rightarrow> gunzip \<Rightarrow> nat option \<Rightarrow> nat \<Rightarrow> path list \<Rightarrow> nat \<Rightarrow> nat list \<Rightarrow> mz_state \<Rightarrow> nat \<times> string list \<Rightarrow> (py_exn + nat \<times> string list) \<times> mz_state" where
  "batch_loop batch_size gunzip sig inflight gz_files total_batches [] st totals = (Inr totals, st)"
| "batch_loop batch_size gunzip sig inflight gz_files total_batches (batch_num # later) st totals =
     (if shutdown_requested sig (reads st)
      then (Inr totals, st\<lparr>reads := reads st + 1\<rparr>)
      else
        let (total_successful, total_failed) = totals;
            st1 = st\<lparr>reads := reads st + 1, started := started st @ [(batch_num, reads st)]\<rparr>;
            start_idx = (batch_num - 1) * batch_size;
            end_idx = min (start_idx + batch_size) (length gz_files);
            batch = take (end_idx - start_idx) (drop start_idx gz_files)
        in case process_batch gunzip sig inflight batch st1 of
             (Inl e, st2) \<Rightarrow> (Inl e, st2)
           | (Inr (successful, failed), st2) \<Rightarrow>
               let st3 =
                     (if batch_num < total_batches
                      then (if \<not> shutdown_requested sig (reads st2)
                            then st2\<lparr>reads := reads st2 + 1, pauses := pauses st2 + 1\<rparr>
                            else st2\<lparr>reads := reads st2 + 1\<rparr>)
                      else st2)
               in batch_loop batch_size gunzip sig inflight gz_files total_batches later st3
                    (total_successful + successful, total_failed @ failed))"

text \<open>
  What \<^verbatim>\<open>main\<close> prints at its end: that the data directory is missing, that there is
  nothing to extract, or the summary with the number of successes, the failures, the
  number of compressed files still found by the scan (\<^verbatim>\<open>remaining_gz\<close>) and whether the
  script was interrupted. The recursive scan \<^verbatim>\<open>data_dir.rglob("*.hgt.gz")\<close> is library
  code: the parameter \<open>rglob_gz\<close>.
\<close>

datatype report = NoDataDir | NothingToDo | Summary nat "string list" nat bool

definition run_batches :: "nat \<Rightarrow> gunzip \<Rightarrow> nat option \<Rightarrow> nat \<Rightarrow> path list \<Rightarrow> mz_state \<Rightarrow> (py_exn + nat \<times> string list) \<times> mz_state" where
  "run_batches batch_size gunzip sig inflight gz_files st =
     (let total_batches = (length gz_files + batch_size - 1) div batch_size
      in batch_loop batch_size gunzip sig inflight gz_files total_batches
           [1 ..< total_batches + 1] st (0, []))"

definition main_with :: "nat \<Rightarrow> gunzip \<Rightarrow> nat option \<Rightarrow> nat \<Rightarrow> (fs \<Rightarrow> path list) \<Rightarrow> mz_state \<Rightarrow> (py_exn + report) \<times> mz_state" where
  "main_with batch_size gunzip sig inflight rglob_gz st =
     (if \<not> exists (mz_files st) [''data'', ''mapzen''] then (Inr NoDataDir, st)
      else
        let gz_files = rglob_gz (mz_files st) in
        if gz_files = [] then (Inr NothingToDo, st)
        else
          (case run_batches batch_size gunzip sig inflight gz_files st of
             (Inl e, st') \<Rightarrow> (Inl e, st')
           | (Inr (total_successful, total_failed), st') \<Rightarrow>
               (Inr (Summary total_successful total_failed
                       (length (rglob_gz (mz_files st')))
                       (shutdown_requested sig (reads st'))),
                st'\<lparr>reads := reads st' + 1\<rparr>)))"

definition mapzen_main :: "gunzip \<Rightarrow> nat option \<Rightarrow> nat \<Rightarrow> (fs \<Rightarrow> path list) \<Rightarrow> mz_state \<Rightarrow> (py_exn + report) \<times> mz_state" where
  "mapzen_main = main_with 1000"

text \<open>
  Three tiles in the data directory, a decompressor that succeeds, and the run with
  batches of two in which the signal arrives while the first task is running and one more
  task is in flight.
\<close>

definition tile_a :: path where
  "tile_a = [''data'', ''mapzen'', ''N00E006.hgt.gz'']"

definition tile_b :: path where
  "tile_b = [''data'', ''mapzen'', ''N00E007.hgt.gz'']"

definition tile_c :: path where
  "tile_c = [''data'', ''mapzen'', ''N00E008.hgt.gz'']"

definition scan :: "fs \<Rightarrow> path list" where
  "scan fs = filter (exists fs) [tile_a, tile_b, tile_c]"

definition start_state :: mz_state where
  "start_state =
     \<lparr>mz_files = [[''data'', ''mapzen''] \<mapsto> Dir, tile_a \<mapsto> File ''gz'', tile_b \<mapsto> File ''gz'',
                  tile_c \<mapsto> File ''gz''],
      reads = 0, ran = [], started = [], pauses = 0\<rparr>"

definition gunzip_ok :: gunzip where
  "gunzip_ok = (\<lambda>z. (''DATA'', None))"

definition interrupted_run :: "(py_exn + report) \<times> mz_state" where
  "interrupted_run = main_with 2 gunzip_ok (Some 1) 1 scan start_state"

section \<open>aster-downloader.py: strings and paths\<close>

text \<open>\<^verbatim>\<open>s.startswith(p)\<close>, \<^verbatim>\<open>s.endswith(p)\<close> and \<^verbatim>\<open>p in s\<close> on strings.\<close>

definition startswith :: "string \<Rightarrow> string \<Rightarrow> bool" where
  "startswith s p = (take (length p) s = p)"

definition endswith :: "string \<Rightarrow> string \<Rightarrow> bool" where
  "endswith s p = (length p \<le> length s \<and> drop (length s - length p) s = p)"

fun contains :: "string \<Rightarrow> string \<Rightarrow> bool" where
  "contains p [] = (p = [])"
| "contains p (c # cs) = (startswith (c # cs) p \<or> contains p cs)"

text \<open>
  \<^verbatim>\<open>s.lower()\<close>, on the ASCII letters (a header value is ASCII text).
\<close>

definition lower_char :: "char \<Rightarrow> char" where
  "lower_char c =
     (let n = (of_char c :: nat) in if 65 \<le> n \<and> n \<le> 90 then char_of (n + 32) else c)"

definition lower :: "string \<Rightarrow> string" where
  "lower s = map lower_char s"

text \<open>\<^verbatim>\<open>s.split('/')\<close>: the pieces between the slashes, at least one.\<close>

fun split_slash :: "string \<Rightarrow> string list" where
  "split_slash [] = [[]]"
| "split_slash (c # cs) =
     (if c = CHR ''/'' then [] # split_slash cs
      else (case split_slash cs of
              [] \<Rightarrow> [[c]]
            | x # xs \<Rightarrow> (c # x) # xs))"

text \<open>
  \<^verbatim>\<open>Path(s)\<close>: the components of \<open>s\<close>, empty ones and \<^verbatim>\<open>.\<close> dropped, after the root
  when \<open>s\<close> starts with a slash. \<^verbatim>\<open>p / s\<close> appends them to \<open>p\<close>, and is \<^verbatim>\<open>Path(s)\<close>
  when \<open>s\<close> is absolute. \<^verbatim>\<open>p.parent\<close> drops the last component; the root is its own
  parent.
\<close>

definition path_of :: "string \<Rightarrow> path" where
  "path_of s =
     (if startswith s ''/'' then [''/''] else [])
       @ filter (\<lambda>c. c \<noteq> [] \<and> c \<noteq> ''.'') (split_slash s)"

definition path_join :: "path \<Rightarrow> string \<Rightarrow> path" where
  "path_join p s = (if startswith s ''/'' then path_of s else p @ path_of s)"

definition parent :: "path \<Rightarrow> path" where
  "parent p = (if p = [''/''] then p else butlast p)"

text \<open>
  \<^verbatim>\<open>p.mkdir(parents=True, exist_ok=True)\<close>: every missing directory on the way to \<open>p\<close> is
  created; a regular file on the way raises and nothing is created. \<open>pre\<close> is the part
  of the path already walked.
\<close>

fun mkdir_walk :: "fs \<Rightarrow> path \<Rightarrow> path \<Rightarrow> py_exn + fs" where
  "mkdir_walk fs pre [] = Inr fs"
| "mkdir_walk fs pre (c # cs) =
     (case fs (pre @ [c]) of
        Some (File _) \<Rightarrow> Inl (FileExistsError (pre @ [c]))
      | Some Dir \<Rightarrow> mkdir_walk fs (pre @ [c]) cs
      | None \<Rightarrow> mkdir_walk (fs(pre @ [c] \<mapsto> Dir)) (pre @ [c]) cs)"

definition mkdir_parents :: "fs \<Rightarrow> path \<Rightarrow> py_exn + fs" where
  "mkdir_parents fs p = mkdir_walk fs [] p"

section \<open>aster-downloader.py: the fetcher\<close>

text \<open>
  What one \<^verbatim>\<open>session.get(url, stream=True, ...)\<close> gives: an exception (a timeout, a
  connection error), or a response. Of a response the code reads the final URL, the
  status, two headers and the body. The body is the list of chunks that
  \<^verbatim>\<open>iter_content\<close> yields; \<open>stream_error\<close> says that the stream raises after them.
  \<open>Malformed\<close> is a \<^verbatim>\<open>content-length\<close> header that \<^verbatim>\<open>int\<close> rejects.
\<close>

datatype length_header = Absent | Numeric nat | Malformed

record response =
  final_url :: string
  status_code :: nat
  content_type :: "string option"
  content_length :: length_header
  chunks :: "bytes list"
  stream_error :: bool

datatype fetch = Raised | Got response

text \<open>
  The world is the file system and the list of what the program has done to the outside
  so far, oldest first: a request for a URL, a \<^verbatim>\<open>time.sleep\<close> of so many seconds, a call
  of \<^verbatim>\<open>process_zip\<close> on an archive. The network answers a request by what has happened
  before and the URL.
\<close>

datatype event = Request string | Sleep nat | Extraction string

type_synonym network = "event list \<Rightarrow> string \<Rightarrow> fetch"

record world =
  files :: fs
  events :: "event list"

text \<open>
  The fields of \<^verbatim>\<open>AsterDownloader\<close> that the modelled methods read and write.
  \<^verbatim>\<open>max_retries\<close> is a natural number: \<^verbatim>\<open>range\<close> of a negative number is empty, as
  \<^verbatim>\<open>range(0)\<close> is.
\<close>

record downloader =
  temp_dir :: path
  dem_dir :: path
  max_retries :: nat
  retry_delay :: nat
  downloaded_files :: "string list"
  failed_downloads :: "string list"
  processed_files :: "string list"

text \<open>\<^verbatim>\<open>url.split('/')[-1]\<close> and \<^verbatim>\<open>self.temp_dir / filename\<close>.\<close>

definition url_filename :: "string \<Rightarrow> string" where
  "url_filename u = last (split_slash u)"

definition staging_path :: "downloader \<Rightarrow> string \<Rightarrow> path" where
  "staging_path dl u = path_join (temp_dir dl) (url_filename u)"

definition login_pattern :: string where
  "login_pattern = ''urs.earthdata.nasa.gov/oauth/authorize''"

definition zip_magic :: bytes where
  "zip_magic = [CHR ''P'', CHR ''K'', CHR 0x03, CHR 0x04]"

text \<open>\<^verbatim>\<open>response.raise_for_status()\<close> raises \<^verbatim>\<open>HTTPError\<close> for a status from 400 to 599.\<close>

definition raises_for_status :: "response \<Rightarrow> bool" where
  "raises_for_status r = (400 \<le> status_code r \<and> status_code r < 600)"

text \<open>
  One pass through the body of the \<^verbatim>\<open>for attempt\<close> loop, up to the retry logic: it
  either returns from \<^verbatim>\<open>download_file\<close> (\<open>Return\<close>) or falls through to the retry logic
  (\<open>Fall\<close>), after one of the two \<^verbatim>\<open>except\<close> clauses has logged a warning. The checks
  come in the order of the source: the login redirect, \<^verbatim>\<open>raise_for_status\<close> (with the
  handler's 401 and 403), the HTML content type, the \<^verbatim>\<open>content-length\<close> conversion, the
  body written to the staging file, the size and magic number of the file. The staging
  directory exists (the constructor creates it), so the staging file can be opened for
  writing; the file keeps what has been written when the stream raises.
\<close>

datatype attempt_result = Return "string \<times> bool" | Fall

definition attempt_body :: "downloader \<Rightarrow> string \<Rightarrow> fetch \<Rightarrow> fs \<Rightarrow> attempt_result \<times> fs" where
  "attempt_body dl u f fs =
     (let filename = url_filename u; filepath = staging_path dl u in
      case f of
        Raised \<Rightarrow> (Fall, fs)
      | Got r \<Rightarrow>
          if contains login_pattern (final_url r) then (Return (filename, False), fs)
          else if raises_for_status r then
            (if status_code r = 401 then (Return (filename, False), fs)
             else if status_code r = 403 then (Return (filename, False), fs)
             else (Fall, fs))
          else if contains ''html''
                    (lower (case content_type r of None \<Rightarrow> [] | Some t \<Rightarrow> t))
            then (Return (filename, False), fs)
          else if content_length r = Malformed then (Fall, fs)
          else
            let body = concat (chunks r);
                fs1 = fs(filepath \<mapsto> File body)
            in if stream_error r then (Fall, fs1)
               else if length body < 1000 \<and> take 4 body \<noteq> zip_magic
                 then (Return (filename, False), fs1(filepath := None))
               else (Return (path_str filepath, True), fs1))"

text \<open>
  The loop \<^verbatim>\<open>for attempt in range(self.max_retries)\<close>, by the number \<open>left\<close> of
  iterations still to run: \<open>attempt = max_retries - left\<close>, so the test
  \<^verbatim>\<open>attempt < self.max_retries - 1\<close> of the retry logic is \<open>0 < left - 1\<close>. After the
  loop the method returns \<^verbatim>\<open>(filename, False)\<close>.
\<close>

fun download_loop :: "network \<Rightarrow> downloader \<Rightarrow> string \<Rightarrow> nat \<Rightarrow> world \<Rightarrow> (string \<times> bool) \<times> world" where
  "download_loop net dl u 0 w = ((url_filename u, False), w)"
| "download_loop net dl u (Suc left) w =
     (let f = net (events w) u;
          w1 = w\<lparr>events := events w @ [Request u]\<rparr>;
          (res, fs') = attempt_body dl u f (files w1);
          w2 = w1\<lparr>files := fs'\<rparr>
      in case res of
           Return r \<Rightarrow> (r, w2)
         | Fall \<Rightarrow>
             if 0 < left
             then download_loop net dl u left (w2\<lparr>events := events w2 @ [Sleep (retry_delay dl)]\<rparr>)
             else download_loop net dl u left w2)"

definition download_file :: "network \<Rightarrow> downloader \<Rightarrow> string \<Rightarrow> world \<Rightarrow> (string \<times> bool) \<times> world" where
  "download_file net dl u w =
     (if exists (files w) (staging_path dl u)
      then ((path_str (staging_path dl u), True), w)
      else download_loop net dl u (max_retries dl) w)"

section \<open>aster-downloader.py: the archive transformer\<close>

text \<open>
  \<^verbatim>\<open>zipfile.ZipFile\<close> is library code: it is the parameter \<open>unzip\<close>, which reads the
  bytes of a file as an archive, or fails (\<^verbatim>\<open>BadZipFile\<close>). An archive is the list of its
  entries in the order of \<^verbatim>\<open>namelist()\<close>. Reading an entry can fail when the entry is
  opened (before the target file is touched) or when its bytes are read (after the target
  file has been opened for writing, which empties it). \<^verbatim>\<open>zip_ref.open(name)\<close> finds an
  entry by its name, the last one of that name.
\<close>

datatype entry_data = Data bytes | OpenFails | ReadFails

type_synonym archive = "(string \<times> entry_data) list"

type_synonym unzip = "bytes \<Rightarrow> archive option"

definition zip_open :: "archive \<Rightarrow> string \<Rightarrow> entry_data option" where
  "zip_open entries name = map_of (rev entries) name"

text \<open>
  The loop \<^verbatim>\<open>for file_name in file_list\<close> of \<^verbatim>\<open>process_zip\<close>, with the list
  \<^verbatim>\<open>extracted_files\<close>. An exception leaves the loop with the file system as it is then.
\<close>

fun extract_loop :: "path \<Rightarrow> archive \<Rightarrow> string list \<Rightarrow> fs \<Rightarrow> string list \<Rightarrow> (py_exn + string list) \<times> fs" where
  "extract_loop dem entries [] fs extracted_files = (Inr extracted_files, fs)"
| "extract_loop dem entries (file_name # rest) fs extracted_files =
     (if endswith file_name ''_num.tif'' then extract_loop dem entries rest fs extracted_files
      else
        let target_path = path_join dem file_name in
        case mkdir_parents fs (parent target_path) of
          Inl e \<Rightarrow> (Inl e, fs)
        | Inr fs1 \<Rightarrow>
            if endswith file_name ''/'' then extract_loop dem entries rest fs1 extracted_files
            else
              (case zip_open entries file_name of
                 None \<Rightarrow> (Inl (KeyError file_name), fs1)
               | Some OpenFails \<Rightarrow> (Inl (DecodeError file_name), fs1)
               | Some d \<Rightarrow>
                   if fs1 target_path = Some Dir then (Inl (IsADirectoryError target_path), fs1)
                   else
                     (case d of
                        Data b \<Rightarrow>
                          extract_loop dem entries rest (fs1(target_path \<mapsto> File b))
                            (extracted_files @ [path_str target_path])
                      | _ \<Rightarrow> (Inl (DecodeError file_name), fs1(target_path \<mapsto> File [])))))"

text \<open>
  \<^verbatim>\<open>process_zip\<close>. Every call writes one line to the log (not found, processed, or
  error); the event \<open>Extraction\<close> stands for the call.
\<close>

definition process_zip :: "unzip \<Rightarrow> downloader \<Rightarrow> string \<Rightarrow> world \<Rightarrow> (string \<times> bool \<times> string list) \<times> world" where
  "process_zip unzip dl zip_path_str w =
     (let zip_path = path_of zip_path_str;
          w0 = w\<lparr>events := events w @ [Extraction (path_str zip_path)]\<rparr>
      in if \<not> exists (files w) zip_path then ((path_str zip_path, False, []), w0)
         else
           (case files w zip_path of
              Some (File z) \<Rightarrow>
                (case unzip z of
                   None \<Rightarrow> ((path_str zip_path, False, []), w0)
                 | Some entries \<Rightarrow>
                     (case extract_loop (dem_dir dl) entries (map fst entries) (files w) [] of
                        (Inl e, fs') \<Rightarrow> ((path_str zip_path, False, []), w0\<lparr>files := fs'\<rparr>)
                      | (Inr extracted_files, fs') \<Rightarrow>
                          ((path_str zip_path, True, extracted_files), w0\<lparr>files := fs'\<rparr>)))
            | _ \<Rightarrow> ((path_str zip_path, False, []), w0)))"

section \<open>aster-downloader.py: the orchestrator\<close>

text \<open>\<^verbatim>\<open>urls[start_idx:end_idx]\<close>, with Python's negative and out-of-range indices.\<close>

definition clamp_index :: "nat \<Rightarrow> int \<Rightarrow> nat" where
  "clamp_index n i = (if i < 0 then nat (max 0 (int n + i)) else min (nat i) n)"

definition py_slice :: "'a list \<Rightarrow> int \<Rightarrow> int option \<Rightarrow> 'a list" where
  "py_slice xs start_idx end_idx =
     (let n = length xs;
          s = clamp_index n start_idx;
          e = (case end_idx of None \<Rightarrow> n | Some j \<Rightarrow> clamp_index n j)
      in take (e - s) (drop s xs))"

text \<open>
  The download stage of \<^verbatim>\<open>download_batch\<close>. The thread pool runs \<^verbatim>\<open>download_file\<close> for
  the URLs of the batch; here the calls run one after the other in the order of the
  batch, each as one step, and their results are recorded in that order.
  \<^verbatim>\<open>download_file\<close> catches every exception of an attempt, so the \<^verbatim>\<open>except\<close> clause
  around \<^verbatim>\<open>future.result()\<close> has no case here.
\<close>

fun download_stage :: "network \<Rightarrow> string list \<Rightarrow> downloader \<times> world \<Rightarrow> downloader \<times> world" where
  "download_stage net [] (dl, w) = (dl, w)"
| "download_stage net (u # us) (dl, w) =
     (let ((filepath, success), w') = download_file net dl u w;
          dl' = (if success then dl\<lparr>downloaded_files := downloaded_files dl @ [filepath]\<rparr>
                 else dl\<lparr>failed_downloads := failed_downloads dl @ [u]\<rparr>)
      in download_stage net us (dl', w'))"

text \<open>The extraction stage: the loop over \<^verbatim>\<open>self.downloaded_files\<close>.\<close>

fun extract_stage :: "unzip \<Rightarrow> string list \<Rightarrow> downloader \<times> world \<Rightarrow> downloader \<times> world" where
  "extract_stage unzip [] (dl, w) = (dl, w)"
| "extract_stage unzip (zip_file # rest) (dl, w) =
     (if zip_file \<notin> set (processed_files dl) then
        (let ((_, success, _), w') = process_zip unzip dl zip_file w;
             dl' = (if success then dl\<lparr>processed_files := processed_files dl @ [zip_file]\<rparr>
                    else dl)
         in extract_stage unzip rest (dl', w'))
      else extract_stage unzip rest (dl, w))"

definition download_batch :: "network \<Rightarrow> unzip \<Rightarrow> string list \<Rightarrow> int \<Rightarrow> int option \<Rightarrow> downloader \<times> world \<Rightarrow> downloader \<times> world" where
  "download_batch net unzip urls start_idx end_idx s =
     (let batch_urls = py_slice urls start_idx end_idx;
          (dl1, w1) = download_stage net batch_urls s
      in extract_stage unzip (downloaded_files dl1) (dl1, w1))"

text \<open>
  \<^verbatim>\<open>reprocess_existing\<close>. \<^verbatim>\<open>self.temp_dir.glob("*.zip")\<close> is library code: the parameter
  \<open>glob_zip\<close> lists the zip files of a directory. The result is the pair of
  \<^verbatim>\<open>processed_count\<close> and \<^verbatim>\<open>failed_count\<close>.
\<close>

fun reprocess_loop :: "unzip \<Rightarrow> downloader \<Rightarrow> path list \<Rightarrow> nat \<times> nat \<Rightarrow> world \<Rightarrow> (nat \<times> nat) \<times> world" where
  "reprocess_loop unzip dl [] counts w = (counts, w)"
| "reprocess_loop unzip dl (zip_file # rest) (processed_count, failed_count) w =
     (let ((_, success, _), w') = process_zip unzip dl (path_str zip_file) w
      in if success then reprocess_loop unzip dl rest (processed_count + 1, failed_count) w'
         else reprocess_loop unzip dl rest (processed_count, failed_count + 1) w')"

definition reprocess_existing :: "unzip \<Rightarrow> (fs \<Rightarrow> path \<Rightarrow> path list) \<Rightarrow> downloader \<Rightarrow> world \<Rightarrow> (nat \<times> nat) \<times> world" where
  "reprocess_existing unzip glob_zip dl w =
     (let zip_files = glob_zip (files w) (temp_dir dl)
      in if zip_files = [] then ((0, 0), w)
         else reprocess_loop unzip dl zip_files (0, 0) w)"

text \<open>
  The two passes of \<^verbatim>\<open>main\<close>: the batch, and with \<^verbatim>\<open>--retry-failed\<close> the retry of the
  failed downloads, on a copy of the list, which is cleared first.
\<close>

definition main_passes :: "network \<Rightarrow> unzip \<Rightarrow> bool \<Rightarrow> string list \<Rightarrow> int \<Rightarrow> int option \<Rightarrow> downloader \<times> world \<Rightarrow> downloader \<times> world" where
  "main_passes net unzip retry_failed urls start_idx end_idx s =
     (let (dl1, w1) = download_batch net unzip urls start_idx end_idx s
      in if retry_failed \<and> failed_downloads dl1 \<noteq> [] then
           (let retry_urls = failed_downloads dl1
            in download_batch net unzip retry_urls 0 None (dl1\<lparr>failed_downloads := []\<rparr>, w1))
         else (dl1, w1))"

text \<open>
  \<^verbatim>\<open>AsterDownloader.__init__\<close> as \<^verbatim>\<open>main\<close> calls it: the output directory is given, the
  retry settings are the defaults. (It also creates the two directories.)
\<close>

definition new_downloader :: "string \<Rightarrow> downloader" where
  "new_downloader output_dir =
     \<lparr>temp_dir = parent (path_of output_dir) @ [''temp_zips''],
      dem_dir = path_of output_dir,
      max_retries = 3,
      retry_delay = 5,
      downloaded_files = [],
      failed_downloads = [],
      processed_files = []\<rparr>"

section \<open>Kinds of responses\<close>

text \<open>
  The conditions under which the claims about the fetcher are stated, in the terms of
  the checks of \<^verbatim>\<open>download_file\<close>.
\<close>

definition login_redirect :: "response \<Rightarrow> bool" where
  "login_redirect r = contains login_pattern (final_url r)"

definition declares_html :: "response \<Rightarrow> bool" where
  "declares_html r =
     contains ''html'' (lower (case content_type r of None \<Rightarrow> [] | Some t \<Rightarrow> t))"


text \<open>
  A transient failure: \<^verbatim>\<open>session.get\<close> raises (a timeout, a connection error), or the
  response has an error status other than 401 and 403, or the transfer of the body breaks
  (the stream raises, or the \<^verbatim>\<open>content-length\<close> header is not a number).
\<close>

definition transient :: "fetch \<Rightarrow> bool" where
  "transient f =
     (case f of
        Raised \<Rightarrow> True
      | Got r \<Rightarrow>
          \<not> login_redirect r \<and>
          (if raises_for_status r then status_code r \<noteq> 401 \<and> status_code r \<noteq> 403
           else \<not> declares_html r \<and> (content_length r = Malformed \<or> stream_error r)))"

text \<open>
  A response whose body arrives whole, is shorter than 1000 bytes and does not start with
  the magic number of a ZIP file.
\<close>

definition undersized_not_zip :: "response \<Rightarrow> bool" where
  "undersized_not_zip r =
     (\<not> login_redirect r \<and> \<not> raises_for_status r \<and> \<not> declares_html r
      \<and> content_length r \<noteq> Malformed \<and> \<not> stream_error r
      \<and> length (concat (chunks r)) < 1000 \<and> take 4 (concat (chunks r)) \<noteq> zip_magic)"

text \<open>
  What a download that fails \<open>n\<close> times in a row does to the outside: \<open>n\<close> requests,
  with a sleep between two of them.
\<close>

fun attempts_trace :: "nat \<Rightarrow> string \<Rightarrow> nat \<Rightarrow> event list" where
  "attempts_trace 0 u d = []"
| "attempts_trace (Suc 0) u d = [Request u]"
| "attempts_trace (Suc (Suc n)) u d = Request u # Sleep d # attempts_trace (Suc n) u d"

text \<open>
  What \<open>k\<close> failed attempts that are each followed by another one do to the outside: a
  request and a sleep, \<open>k\<close> times.
\<close>

fun retry_prefix :: "nat \<Rightarrow> string \<Rightarrow> nat \<Rightarrow> event list" where
  "retry_prefix 0 u d = []"
| "retry_prefix (Suc k) u d = Request u # Sleep d # retry_prefix k u d"

fun is_request :: "event \<Rightarrow> bool" where
  "is_request (Request u) = True"
| "is_request e = False"

fun is_sleep :: "event \<Rightarrow> bool" where
  "is_sleep (Sleep d) = True"
| "is_sleep e = False"

section \<open>Example data\<close>

text \<open>
  A downloader as \<^verbatim>\<open>main\<close> builds it for the default output directory, the world after
  its constructor has created the directories, and some responses.
\<close>

definition example_dl :: downloader where
  "example_dl = new_downloader ''data/aster30m''"

definition example_url :: string where
  "example_url = ''https://data.example/ASTGTMV003_N00E006.zip''"

definition initial_world :: world where
  "initial_world =
     \<lparr>files = [[''data''] \<mapsto> Dir, [''data'', ''aster30m''] \<mapsto> Dir, [''data'', ''temp_zips''] \<mapsto> Dir],
      events = []\<rparr>"

definition response_ok :: response where
  "response_ok =
     \<lparr>final_url = example_url, status_code = 200, content_type = Some ''application/zip'',
      content_length = Absent, chunks = [], stream_error = False\<rparr>"



definition response_503 :: response where
  "response_503 = response_ok\<lparr>status_code := 503, content_type := None\<rparr>"

definition response_tiny :: response where
  "response_tiny = response_ok\<lparr>chunks := [''Not'', '' found'']\<rparr>"

text \<open>
  A response with the status 304 and no body, and a network that answers the first
  request with the status 503 and every later one with a body of nine bytes.
\<close>

definition response_304 :: response where
  "response_304 = response_ok\<lparr>status_code := 304\<rparr>"

definition flaky_network :: network where
  "flaky_network = (\<lambda>h u. if length h < 2 then Got response_503 else Got response_tiny)"

section \<open>Running the download stage twice\<close>

text \<open>
  Two downloaders have the same configuration when they agree on what
  \<^verbatim>\<open>download_file\<close> reads. A pair of networks is steady when a URL gets the same answer
  from both, whatever has happened before.
\<close>

definition same_config :: "downloader \<Rightarrow> downloader \<Rightarrow> bool" where
  "same_config a b =
     (temp_dir a = temp_dir b \<and> max_retries a = max_retries b \<and> retry_delay a = retry_delay b)"


text \<open>A response with a small ZIP file, and the world after it has been staged.\<close>

definition response_zip :: response where
  "response_zip = response_ok\<lparr>chunks := [zip_magic, ''archive bytes'']\<rparr>"


section \<open>The results of a download stage\<close>

text \<open>
  The result of each \<^verbatim>\<open>download_file\<close> call of a download stage, in the order of the
  batch: the URL and whether the call reported success. The URLs of the failed calls are
  what the stage appends to \<^verbatim>\<open>failed_downloads\<close>.
\<close>

fun stage_results :: "network \<Rightarrow> string list \<Rightarrow> downloader \<times> world \<Rightarrow> (string \<times> bool) list" where
  "stage_results net [] (dl, w) = []"
| "stage_results net (u # us) (dl, w) =
     (let ((filepath, success), w') = download_file net dl u w;
          dl' = (if success then dl\<lparr>downloaded_files := downloaded_files dl @ [filepath]\<rparr>
                 else dl\<lparr>failed_downloads := failed_downloads dl @ [u]\<rparr>)
      in (u, success) # stage_results net us (dl', w'))"

definition failing :: "(string \<times> bool) list \<Rightarrow> string list" where
  "failing rs = map fst (filter (\<lambda>r. \<not> snd r) rs)"

text \<open>A network that is down, and a staging directory without a readable archive.\<close>

definition always_503 :: network where
  "always_503 = (\<lambda>h u. Got response_503)"

definition no_archive :: unzip where
  "no_archive = (\<lambda>b. None)"

section \<open>What an extraction keeps\<close>

text \<open>
  An entry is kept when its name ends neither with \<^verbatim>\<open>_num.tif\<close> nor with a slash. The
  target of an entry is \<^verbatim>\<open>self.dem_dir / file_name\<close>. One file system grows into
  another when every directory stays a directory and every regular file stays a regular
  file.
\<close>

definition kept :: "string \<Rightarrow> bool" where
  "kept file_name = (\<not> endswith file_name ''_num.tif'' \<and> \<not> endswith file_name ''/'')"

definition kept_names :: "archive \<Rightarrow> string list" where
  "kept_names entries = filter kept (map fst entries)"

definition target :: "downloader \<Rightarrow> string \<Rightarrow> path" where
  "target dl file_name = path_join (dem_dir dl) file_name"

definition grows :: "fs \<Rightarrow> fs \<Rightarrow> bool" where
  "grows fs fs' =
     (\<forall>q. (fs q = Some Dir \<longrightarrow> fs' q = Some Dir)
        \<and> (\<forall>b. fs q = Some (File b) \<longrightarrow> (\<exists>b'. fs' q = Some (File b'))))"

text \<open>
  An archive of three entries, the same archive with a member whose bytes cannot be read,
  and the world with an archive staged.
\<close>

definition example_archive :: archive where
  "example_archive =
     [(''a_dem.tif'', Data ''DEM''), (''a_num.tif'', Data ''NUM''), (''readme.txt'', Data ''README'')]"

definition broken_archive :: archive where
  "broken_archive =
     [(''a_dem.tif'', Data ''DEM''), (''broken.tif'', ReadFails), (''readme.txt'', Data ''README'')]"

definition archive_world :: world where
  "archive_world =
     initial_world\<lparr>files := (files initial_world)([''data'', ''temp_zips'', ''a.zip''] \<mapsto> File ''zip bytes'')\<rparr>"

section \<open>What an extraction needs\<close>

text \<open>
  The directories that \<^verbatim>\<open>mkdir(parents=True, exist_ok=True)\<close> visits on its way to a
  path, and those that \<^verbatim>\<open>process_zip\<close> visits for an archive: the parents of the targets
  of all entries but the excluded ones.
\<close>

fun walk_steps :: "path \<Rightarrow> path \<Rightarrow> path list" where
  "walk_steps pre [] = []"
| "walk_steps pre (c # cs) = (pre @ [c]) # walk_steps (pre @ [c]) cs"

definition is_file :: "fs \<Rightarrow> path \<Rightarrow> bool" where
  "is_file fs p = (case fs p of Some (File b) \<Rightarrow> True | _ \<Rightarrow> False)"

definition made_dirs :: "downloader \<Rightarrow> archive \<Rightarrow> path list" where
  "made_dirs dl entries =
     concat (map (\<lambda>n. walk_steps [] (parent (target dl n)))
               (filter (\<lambda>n. \<not> endswith n ''_num.tif'') (map fst entries)))"

text \<open>
  Nothing stands in the way of an extraction: no regular file is where a directory is to
  be made, no target of a kept entry is a directory or is itself to be made a directory,
  the bytes of every kept entry can be read, and no two kept entries have the same
  target. Regular files at the targets are allowed: this is the file system that an
  earlier extraction of the archive has left.
\<close>

definition extractable :: "downloader \<Rightarrow> archive \<Rightarrow> fs \<Rightarrow> bool" where
  "extractable dl entries fs =
     ((\<forall>d \<in> set (made_dirs dl entries). \<not> is_file fs d)
      \<and> (\<forall>n \<in> set (kept_names entries).
            fs (target dl n) \<noteq> Some Dir
          \<and> target dl n \<notin> set (made_dirs dl entries)
          \<and> (case zip_open entries n of Some (Data b) \<Rightarrow> True | _ \<Rightarrow> False))
      \<and> distinct (map (target dl) (kept_names entries)))"

text \<open>
  The world with an archive staged and an output of an earlier extraction on disk, whose
  bytes differ from those of the entry, and a scan that finds the archive.
\<close>

definition stale_world :: world where
  "stale_world =
     archive_world\<lparr>files := (files archive_world)([''data'', ''aster30m'', ''a_dem.tif''] \<mapsto> File ''STALE'')\<rparr>"

definition glob_one :: "fs \<Rightarrow> path \<Rightarrow> path list" where
  "glob_one fs d = (if exists fs (d @ [''a.zip'']) then [d @ [''a.zip'']] else [])"

text \<open>
  A run of \<^verbatim>\<open>main\<close> with \<^verbatim>\<open>--retry-failed\<close> on two URLs: the first is served, the
  second never.
\<close>

fun is_extraction :: "event \<Rightarrow> bool" where
  "is_extraction (Extraction s) = True"
| "is_extraction e = False"

definition missing_url :: string where
  "missing_url = ''https://data.example/ASTGTMV003_N00E007.zip''"

definition mixed_network :: network where
  "mixed_network = (\<lambda>h u. if u = example_url then Got response_zip else Got response_503)"

definition two_pass_run :: "downloader \<times> world" where
  "two_pass_run =
     main_passes mixed_network (\<lambda>b. Some example_archive) True [example_url, missing_url] 0 None
       (example_dl, initial_world)"

section \<open>Facts about paths\<close>

lemma py_stem_hgt_gz: "py_stem (x @ ''.hgt.gz'') = x @ ''.hgt''"
  by (simp add: py_stem_def Let_def)

lemma path_name_snoc: "c \<noteq> ''/'' \<Longrightarrow> path_name (d @ [c]) = c"
  by (auto simp: path_name_def)

lemma with_suffix_hgt_gz:
  "with_suffix_empty (d @ [x @ ''.hgt.gz'']) = Inr (d @ [x @ ''.hgt''])"
proof -
  have "x @ ''.hgt.gz'' \<noteq> ''/''" by (cases x) auto
  then have n: "path_name (d @ [x @ ''.hgt.gz'']) = x @ ''.hgt.gz''"
    by (rule path_name_snoc)
  show ?thesis
    unfolding with_suffix_empty_def n py_stem_hgt_gz by simp
qed

lemma hgt_neq_hgt_gz: "d @ [x @ ''.hgt''] \<noteq> d @ [x @ ''.hgt.gz'']"
  by simp

section \<open>The fetcher\<close>


lemma attempt_body_transient:
  "transient f \<Longrightarrow> fst (attempt_body dl u f fs) = Fall"
  by (cases f) (auto simp: attempt_body_def transient_def login_redirect_def declares_html_def
        Let_def split: if_splits)

lemma attempt_body_undersized:
  "undersized_not_zip r \<Longrightarrow>
   attempt_body dl u (Got r) fs =
     (Return (url_filename u, False),
      (fs(staging_path dl u \<mapsto> File (concat (chunks r))))(staging_path dl u := None))"
  by (auto simp: attempt_body_def undersized_not_zip_def login_redirect_def declares_html_def Let_def)

lemma attempt_body_frame:
  "p \<noteq> staging_path dl u \<Longrightarrow> snd (attempt_body dl u f fs) p = fs p"
  by (cases f) (auto simp: attempt_body_def Let_def)

lemma attempts_trace_snoc:
  "attempts_trace (Suc (Suc n)) u d = attempts_trace (Suc n) u d @ [Sleep d, Request u]"
  by (induction n) auto

lemma requests_attempts_trace: "length (filter is_request (attempts_trace n u d)) = n"
  by (induction n u d rule: attempts_trace.induct) auto

lemma sleeps_attempts_trace: "length (filter is_sleep (attempts_trace n u d)) = n - 1"
  by (induction n u d rule: attempts_trace.induct) auto

lemma download_loop_transient:
  assumes "\<forall>h. transient (net h u)"
  shows "fst (download_loop net dl u n w) = (url_filename u, False)
     \<and> events (snd (download_loop net dl u n w)) = events w @ attempts_trace n u (retry_delay dl)"
proof (induction n arbitrary: w)
  case 0
  show ?case by simp
next
  case (Suc n)
  let ?f = "net (events w) u"
  obtain fs' where ab: "attempt_body dl u ?f (files w) = (Fall, fs')"
    using assms attempt_body_transient [of "net (events w) u" dl u "files w"]
    by (cases "attempt_body dl u ?f (files w)") auto
  show ?case
  proof (cases n)
    case 0
    then show ?thesis using ab by (simp add: Let_def)
  next
    case (Suc m)
    then show ?thesis
      using ab Suc.IH [of "w\<lparr>events := events w @ [Request u], files := fs', events := (events w @ [Request u]) @ [Sleep (retry_delay dl)]\<rparr>"]
      by (simp add: Let_def)
  qed
qed

lemma failed_downloads_stage_mono:
  "set (failed_downloads dl) \<subseteq> set (failed_downloads (fst (download_stage net us (dl, w))))"
proof (induction us arbitrary: dl w)
  case Nil
  show ?case by simp
next
  case (Cons u us)
  obtain fp ok w' where d: "download_file net dl u w = ((fp, ok), w')"
    by (metis surj_pair)
  show ?case
  proof (cases ok)
    case True
    then show ?thesis
      using d Cons.IH [of "dl\<lparr>downloaded_files := downloaded_files dl @ [fp]\<rparr>" w'] by simp
  next
    case False
    then show ?thesis
      using d Cons.IH [of "dl\<lparr>failed_downloads := failed_downloads dl @ [u]\<rparr>" w'] by auto
  qed
qed

lemma download_stage_failure:
  assumes "fst (download_file net dl u w) = (f, False)"
  shows "download_stage net (u # us) (dl, w) =
           download_stage net us (dl\<lparr>failed_downloads := failed_downloads dl @ [u]\<rparr>,
                                  snd (download_file net dl u w))"
    and "u \<in> set (failed_downloads (fst (download_stage net (u # us) (dl, w))))"
proof -
  show a: "download_stage net (u # us) (dl, w) =
           download_stage net us (dl\<lparr>failed_downloads := failed_downloads dl @ [u]\<rparr>,
                                  snd (download_file net dl u w))"
    using assms by (cases "download_file net dl u w") auto
  show "u \<in> set (failed_downloads (fst (download_stage net (u # us) (dl, w))))"
    unfolding a
    using failed_downloads_stage_mono
      [of "dl\<lparr>failed_downloads := failed_downloads dl @ [u]\<rparr>" net us "snd (download_file net dl u w)"]
    by auto
qed

lemma example_dl_simps:
  "max_retries example_dl = 3" "retry_delay example_dl = 5"
  "failed_downloads example_dl = []"
  by (simp_all add: example_dl_def new_downloader_def)

lemma example_filename: "url_filename example_url = ''ASTGTMV003_N00E006.zip''"
  by code_simp

lemma example_not_staged: "\<not> exists (files initial_world) (staging_path example_dl example_url)"
  by code_simp

lemma example_transient: "transient (Got response_503)"
  by code_simp


lemma example_tiny: "undersized_not_zip response_tiny"
  by code_simp




text \<open>
  Claim C2, as the code has it. A work item whose staging file does not exist and whose
  every fetch fails with a transient error (\<^verbatim>\<open>session.get\<close> raises, or the response is
  no login redirect and has an error status from 400 to 599 other than 401 and 403, or
  the transfer of the body breaks) is requested exactly \<^verbatim>\<open>max_retries\<close> times, with a sleep of
  \<^verbatim>\<open>retry_delay\<close> seconds between two requests and none after the last one
  (\<open>attempts_trace\<close>: as many requests as \<^verbatim>\<open>max_retries\<close>, one sleep fewer);
  \<^verbatim>\<open>download_file\<close> returns the failure, and the URL is in \<^verbatim>\<open>failed_downloads\<close> at the
  end of the download stage. With the defaults of the constructor these are three
  requests and two sleeps of five seconds.
\<close>

theorem download_file_retry_cap:
  assumes "\<not> exists (files w) (staging_path dl u)" and "\<forall>h. transient (net h u)"
  shows "fst (download_file net dl u w) = (url_filename u, False)
     \<and> events (snd (download_file net dl u w)) =
         events w @ attempts_trace (max_retries dl) u (retry_delay dl)
     \<and> length (filter is_request (attempts_trace (max_retries dl) u (retry_delay dl))) = max_retries dl
     \<and> length (filter is_sleep (attempts_trace (max_retries dl) u (retry_delay dl))) = max_retries dl - 1
     \<and> u \<in> set (failed_downloads (fst (download_stage net (u # us) (dl, w))))"
proof -
  have l: "fst (download_file net dl u w) = (url_filename u, False)
     \<and> events (snd (download_file net dl u w)) =
         events w @ attempts_trace (max_retries dl) u (retry_delay dl)"
    using assms(1) assms(2) download_loop_transient [where net = net and u = u and dl = dl and n = "max_retries dl" and w = w]
    by (simp add: download_file_def)
  then have "fst (download_file net dl u w) = (url_filename u, False)" by simp
  then have "u \<in> set (failed_downloads (fst (download_stage net (u # us) (dl, w))))"
    by (rule download_stage_failure(2))
  with l show ?thesis
    by (simp add: requests_attempts_trace sleeps_attempts_trace)
qed

theorem download_file_retry_cap_witness:
  "fst (download_file (\<lambda>h u. Got response_503) example_dl example_url initial_world)
      = (''ASTGTMV003_N00E006.zip'', False)
   \<and> events (snd (download_file (\<lambda>h u. Got response_503) example_dl example_url initial_world))
      = [Request example_url, Sleep 5, Request example_url, Sleep 5, Request example_url]
   \<and> example_url \<in> set (failed_downloads (fst (download_stage (\<lambda>h u. Got response_503) [example_url]
        (example_dl, initial_world))))"
  using download_file_retry_cap [of initial_world example_dl example_url "\<lambda>h u. Got response_503" "[]"]
    example_not_staged example_transient
  by (simp add: example_dl_simps example_filename initial_world_def numeral_3_eq_3)

text \<open>
  The claim C2 as it is written speaks of every status that is neither a success nor 401
  or 403. \<^verbatim>\<open>raise_for_status\<close> raises from 400 to 599 only: a final response with the
  status 304 and an empty body passes it, fails the size check and is given up after one
  request, with the cap at 3.
\<close>

theorem download_file_redirect_status_not_retried:
  "status_code response_304 = 304
   \<and> \<not> login_redirect response_304
   \<and> \<not> transient (Got response_304)
   \<and> max_retries example_dl = 3
   \<and> fst (download_file (\<lambda>h u. Got response_304) example_dl example_url initial_world)
       = (''ASTGTMV003_N00E006.zip'', False)
   \<and> events (snd (download_file (\<lambda>h u. Got response_304) example_dl example_url initial_world))
       = [Request example_url]"
  by code_simp

lemma download_loop_frame:
  "p \<noteq> staging_path dl u \<Longrightarrow> files (snd (download_loop net dl u n w)) p = files w p"
proof (induction n arbitrary: w)
  case 0
  show ?case by simp
next
  case (Suc n)
  obtain res fs' where ab: "attempt_body dl u (net (events w) u) (files w) = (res, fs')"
    by (metis surj_pair)
  have fs': "fs' p = files w p"
    using attempt_body_frame [OF Suc.prems, of "net (events w) u" "files w"] ab by simp
  show ?case
  proof (cases res)
    case (Return r)
    then show ?thesis using ab fs' by (simp add: Let_def)
  next
    case Fall
    then show ?thesis
      using ab fs' Suc.IH [OF Suc.prems, of "w\<lparr>events := events w @ [Request u], files := fs'\<rparr>"]
        Suc.IH [OF Suc.prems, of "w\<lparr>events := events w @ [Request u], files := fs', events := (events w @ [Request u]) @ [Sleep (retry_delay dl)]\<rparr>"]
      by (simp add: Let_def)
  qed
qed

lemma download_loop_undersized:
  "\<forall>j<k. transient (net (events w @ retry_prefix j u (retry_delay dl)) u) \<Longrightarrow>
   net (events w @ retry_prefix k u (retry_delay dl)) u = Got r \<Longrightarrow>
   undersized_not_zip r \<Longrightarrow> k < left \<Longrightarrow>
   fst (download_loop net dl u left w) = (url_filename u, False)
   \<and> events (snd (download_loop net dl u left w))
       = events w @ retry_prefix k u (retry_delay dl) @ [Request u]
   \<and> files (snd (download_loop net dl u left w)) (staging_path dl u) = None"
proof (induction k arbitrary: w left)
  case 0
  then obtain l where l: "left = Suc l" by (cases left) auto
  show ?case
    using 0 attempt_body_undersized [OF "0.prems"(3), of dl u "files w"]
    by (simp add: l Let_def)
next
  case (Suc k)
  then obtain l where l: "left = Suc l" "k < l" by (cases left) auto
  have t: "transient (net (events w) u)"
    using Suc.prems(1) by force
  obtain fs' where ab: "attempt_body dl u (net (events w) u) (files w) = (Fall, fs')"
    using attempt_body_transient [OF t, of dl u "files w"]
    by (cases "attempt_body dl u (net (events w) u) (files w)") auto
  let ?w2 = "w\<lparr>events := events w @ [Request u], files := fs',
                events := (events w @ [Request u]) @ [Sleep (retry_delay dl)]\<rparr>"
  have e: "events ?w2 @ retry_prefix j u (retry_delay dl)
             = events w @ retry_prefix (Suc j) u (retry_delay dl)" for j
    by simp
  have p1: "\<forall>j<k. transient (net (events ?w2 @ retry_prefix j u (retry_delay dl)) u)"
    unfolding e using Suc.prems(1) by auto
  have p2: "net (events ?w2 @ retry_prefix k u (retry_delay dl)) u = Got r"
    unfolding e using Suc.prems(2) by simp
  have run: "download_loop net dl u left w = download_loop net dl u l ?w2"
    using ab l by (simp add: Let_def)
  show ?case
    unfolding run using Suc.IH [where w = ?w2 and left = l] p1 p2 Suc.prems(3) l(2) by simp
qed

text \<open>
  Claim C3, as the code has it. The size check runs in every attempt that receives a body.
  \<^item> At any attempt of the loop: when the response is a whole body shorter than 1000 bytes
    that does not start with the ZIP magic number, \<^verbatim>\<open>download_file\<close> deletes the file and
    returns the failure at once. The attempt is the last one: one request is logged, no
    sleep, and no further attempt follows, however many are left.
  \<^item> For a whole call on an item that is not staged: when the first \<open>k\<close> attempts (fewer
    than \<^verbatim>\<open>max_retries\<close>) fail with transient errors and the next response is such a body,
    the call makes \<open>k + 1\<close> requests with \<open>k\<close> sleeps, none after the last request,
    returns the failure and leaves the file system as it was before. The URL is in
    \<^verbatim>\<open>failed_downloads\<close> at the end of the download stage.
\<close>

theorem download_file_undersized_fails_at_once:
  "(net (events w) u = Got r \<and> undersized_not_zip r \<longrightarrow>
      download_loop net dl u (Suc left) w =
        ((url_filename u, False),
         w\<lparr>events := events w @ [Request u],
            files := (files w)(staging_path dl u := None)\<rparr>))
   \<and> (\<not> exists (files w) (staging_path dl u) \<and> k < max_retries dl
        \<and> (\<forall>j<k. transient (net (events w @ retry_prefix j u (retry_delay dl)) u))
        \<and> net (events w @ retry_prefix k u (retry_delay dl)) u = Got r
        \<and> undersized_not_zip r \<longrightarrow>
      download_file net dl u w =
        ((url_filename u, False),
         w\<lparr>events := events w @ retry_prefix k u (retry_delay dl) @ [Request u]\<rparr>)
      \<and> u \<in> set (failed_downloads (fst (download_stage net (u # us) (dl, w)))))"
proof -
  have a: "download_loop net dl u (Suc left) w =
        ((url_filename u, False),
         w\<lparr>events := events w @ [Request u],
            files := (files w)(staging_path dl u := None)\<rparr>)"
    if "net (events w) u = Got r" "undersized_not_zip r"
    using that(1) attempt_body_undersized [OF that(2), of dl u "files w"]
    by (simp add: Let_def)
  have b: "download_file net dl u w =
        ((url_filename u, False),
         w\<lparr>events := events w @ retry_prefix k u (retry_delay dl) @ [Request u]\<rparr>)
      \<and> u \<in> set (failed_downloads (fst (download_stage net (u # us) (dl, w))))"
    if ne: "\<not> exists (files w) (staging_path dl u)" and k: "k < max_retries dl"
      and t: "\<forall>j<k. transient (net (events w @ retry_prefix j u (retry_delay dl)) u)"
      and n: "net (events w @ retry_prefix k u (retry_delay dl)) u = Got r"
      and r: "undersized_not_zip r"
  proof -
    have l: "fst (download_loop net dl u (max_retries dl) w) = (url_filename u, False)
       \<and> events (snd (download_loop net dl u (max_retries dl) w))
           = events w @ retry_prefix k u (retry_delay dl) @ [Request u]
       \<and> files (snd (download_loop net dl u (max_retries dl) w)) (staging_path dl u) = None"
      using download_loop_undersized [where net = net and k = k and w = w and u = u
          and dl = dl and r = r and left = "max_retries dl"] t n r k
      by blast
    have d: "download_file net dl u w = download_loop net dl u (max_retries dl) w"
      using ne by (simp add: download_file_def)
    have "files (snd (download_loop net dl u (max_retries dl) w)) p = files w p" for p
    proof (cases "p = staging_path dl u")
      case True
      then show ?thesis using l ne by (simp add: exists_def)
    next
      case False
      then show ?thesis by (rule download_loop_frame)
    qed
    then have f: "files (snd (download_file net dl u w)) = files w"
      unfolding d by (rule ext)
    have e: "events (snd (download_file net dl u w))
               = events w @ retry_prefix k u (retry_delay dl) @ [Request u]"
      unfolding d using l by simp
    have s: "snd (download_file net dl u w)
               = w\<lparr>events := events w @ retry_prefix k u (retry_delay dl) @ [Request u]\<rparr>"
      using e f by (intro world.equality) simp_all
    have h: "fst (download_file net dl u w) = (url_filename u, False)"
      unfolding d using l by simp
    then have "u \<in> set (failed_downloads (fst (download_stage net (u # us) (dl, w))))"
      by (rule download_stage_failure(2))
    moreover have "download_file net dl u w =
        ((url_filename u, False),
         w\<lparr>events := events w @ retry_prefix k u (retry_delay dl) @ [Request u]\<rparr>)"
      using h s by (simp add: prod_eq_iff)
    ultimately show ?thesis by simp
  qed
  from a b show ?thesis by blast
qed

lemma flaky_first: "transient (flaky_network (events initial_world) example_url)"
  by code_simp

lemma flaky_second:
  "flaky_network (events initial_world @ retry_prefix 1 example_url (retry_delay example_dl)) example_url
     = Got response_tiny"
  by code_simp

theorem download_file_undersized_fails_at_once_witness:
  "download_file flaky_network example_dl example_url initial_world
     = ((''ASTGTMV003_N00E006.zip'', False),
        initial_world\<lparr>events := [Request example_url, Sleep 5, Request example_url]\<rparr>)
   \<and> example_url \<in> set (failed_downloads (fst (download_stage flaky_network
        [example_url] (example_dl, initial_world))))
   \<and> download_loop (\<lambda>h u. Got response_tiny) example_dl example_url (Suc 2) initial_world
       = ((''ASTGTMV003_N00E006.zip'', False),
          initial_world\<lparr>events := [Request example_url],
             files := (files initial_world)(staging_path example_dl example_url := None)\<rparr>)"
proof -
  have t: "\<forall>j<1. transient (flaky_network
             (events initial_world @ retry_prefix j example_url (retry_delay example_dl)) example_url)"
    using flaky_first by simp
  have k: "(1::nat) < max_retries example_dl" by (simp add: example_dl_simps)
  have e: "events initial_world = []" by (simp add: initial_world_def)
  show ?thesis
    using download_file_undersized_fails_at_once
        [of flaky_network initial_world example_url response_tiny example_dl 2 1 "[]",
         THEN conjunct2]
      download_file_undersized_fails_at_once
        [of "\<lambda>h u. Got response_tiny" initial_world example_url response_tiny example_dl 2 0 "[]",
         THEN conjunct1]
      example_not_staged example_tiny t k flaky_second
    by (simp add: example_dl_simps example_filename e)
qed

text \<open>
  The claim C3 as it is written has the item retried up to the cap. With the cap at 3,
  a body of nine bytes is requested once and never again.
\<close>

theorem download_file_undersized_not_retried:
  "undersized_not_zip response_tiny \<and> max_retries example_dl = 3
   \<and> fst (download_file (\<lambda>h u. Got response_tiny) example_dl example_url initial_world)
       = (''ASTGTMV003_N00E006.zip'', False)
   \<and> events (snd (download_file (\<lambda>h u. Got response_tiny) example_dl example_url initial_world))
       = [Request example_url]
   \<and> files (snd (download_file (\<lambda>h u. Got response_tiny) example_dl example_url initial_world))
        (staging_path example_dl example_url) = None"
  by code_simp

section \<open>The idempotency guard of the fetcher\<close>










lemma download_step_config:
  "same_config (if ok then dl\<lparr>downloaded_files := x\<rparr> else dl\<lparr>failed_downloads := y\<rparr>) dl"
  by (simp add: same_config_def)

lemma download_stage_config:
  "same_config (fst (download_stage net us (dl, w))) dl"
proof (induction us arbitrary: dl w)
  case Nil
  show ?case by (simp add: same_config_def)
next
  case (Cons u us)
  obtain fp ok w' where d: "download_file net dl u w = ((fp, ok), w')"
    by (metis surj_pair)
  let ?dl' = "if ok then dl\<lparr>downloaded_files := downloaded_files dl @ [fp]\<rparr>
              else dl\<lparr>failed_downloads := failed_downloads dl @ [u]\<rparr>"
  have "same_config (fst (download_stage net us (?dl', w'))) ?dl'" by (rule Cons.IH)
  moreover have "same_config ?dl' dl" by (rule download_step_config)
  ultimately have "same_config (fst (download_stage net us (?dl', w'))) dl"
    by (simp add: same_config_def)
  then show ?case using d by (simp add: Let_def)
qed












section \<open>The retry pass\<close>

lemma stage_results_urls: "map fst (stage_results net us (dl, w)) = us"
proof (induction us arbitrary: dl w)
  case Nil
  show ?case by simp
next
  case (Cons u us)
  obtain fp ok w' where d: "download_file net dl u w = ((fp, ok), w')"
    by (metis surj_pair)
  show ?case using d Cons.IH by (simp add: Let_def)
qed

lemma download_stage_failed:
  "failed_downloads (fst (download_stage net us (dl, w)))
     = failed_downloads dl @ failing (stage_results net us (dl, w))"
proof (induction us arbitrary: dl w)
  case Nil
  show ?case by (simp add: failing_def)
next
  case (Cons u us)
  obtain fp ok w' where d: "download_file net dl u w = ((fp, ok), w')"
    by (metis surj_pair)
  show ?case
  proof (cases ok)
    case True
    then show ?thesis
      using d Cons.IH [of "dl\<lparr>downloaded_files := downloaded_files dl @ [fp]\<rparr>" w']
      by (simp add: Let_def failing_def)
  next
    case False
    then show ?thesis
      using d Cons.IH [of "dl\<lparr>failed_downloads := failed_downloads dl @ [u]\<rparr>" w']
      by (simp add: Let_def failing_def)
  qed
qed

lemma extract_stage_failed:
  "failed_downloads (fst (extract_stage unzip zs (dl, w))) = failed_downloads dl"
proof (induction zs arbitrary: dl w)
  case Nil
  show ?case by simp
next
  case (Cons z zs)
  obtain r ok ex w' where p: "process_zip unzip dl z w = ((r, ok, ex), w')"
    by (metis surj_pair)
  show ?case
    using p Cons.IH [of "dl\<lparr>processed_files := processed_files dl @ [z]\<rparr>" w']
      Cons.IH [of dl w'] Cons.IH [of dl w]
    by (simp add: Let_def)
qed

lemma download_batch_failed:
  "failed_downloads (fst (download_batch net unzip urls i j (dl, w)))
     = failed_downloads dl @ failing (stage_results net (py_slice urls i j) (dl, w))"
proof -
  obtain dl1 w1 where s: "download_stage net (py_slice urls i j) (dl, w) = (dl1, w1)"
    by (metis surj_pair)
  have "failed_downloads dl1 = failed_downloads dl @ failing (stage_results net (py_slice urls i j) (dl, w))"
    using download_stage_failed [of net "py_slice urls i j" dl w] s by simp
  then show ?thesis
    using s by (simp add: download_batch_def Let_def extract_stage_failed)
qed

lemma py_slice_all: "py_slice xs 0 None = xs"
  by (simp add: py_slice_def clamp_index_def)

lemma count_failing_le: "count_list (failing rs) u \<le> count_list (map fst rs) u"
  by (induction rs) (auto simp: failing_def)

lemma failing_member: "(u, False) \<in> set rs \<Longrightarrow> u \<in> set (failing rs)"
  by (force simp: failing_def)

lemma retry_example_once: "count_list (py_slice [example_url] 0 None) example_url = 1"
  by code_simp

lemma retry_example_first: "(example_url, False) \<in> set (stage_results always_503 (py_slice [example_url] 0 None) (example_dl, initial_world))"
  by code_simp

lemma retry_example_second:
  "(example_url, False) \<in> set (stage_results always_503
      (failed_downloads (fst (download_batch always_503 no_archive [example_url] 0 None (example_dl, initial_world))))
      ((fst (download_batch always_503 no_archive [example_url] 0 None (example_dl, initial_world)))\<lparr>failed_downloads := []\<rparr>,
       snd (download_batch always_503 no_archive [example_url] 0 None (example_dl, initial_world))))"
  by code_simp

text \<open>
  Claim C8. With \<^verbatim>\<open>--retry-failed\<close> and a downloader fresh from its constructor, when
  the first pass has left failed downloads, the second pass is \<^verbatim>\<open>download_batch\<close> on the
  whole list of those failed URLs, run with \<^verbatim>\<open>failed_downloads\<close> emptied. The final
  failed list therefore holds no URL more often than the work list does, and a URL that
  is one item of the work list, fails in the first pass and fails again in the retry pass
  is in the final failed list exactly once.
\<close>

theorem retry_pass_records_once:
  assumes fresh: "failed_downloads dl = []"
    and batch: "batch = py_slice urls start_idx end_idx"
    and s1: "s1 = download_batch net unzip urls start_idx end_idx (dl, w)"
    and retry: "retry = (fst s1)\<lparr>failed_downloads := []\<rparr>"
    and s2: "s2 = main_passes net unzip True urls start_idx end_idx (dl, w)"
  shows "(failed_downloads (fst s1) \<noteq> [] \<longrightarrow>
            s2 = download_batch net unzip (failed_downloads (fst s1)) 0 None (retry, snd s1))
       \<and> (\<forall>v. count_list (failed_downloads (fst s2)) v \<le> count_list batch v)
       \<and> (count_list batch u = 1
            \<and> (u, False) \<in> set (stage_results net batch (dl, w))
            \<and> (u, False) \<in> set (stage_results net (failed_downloads (fst s1)) (retry, snd s1))
          \<longrightarrow> count_list (failed_downloads (fst s2)) u = 1)"
proof -
  let ?L = "failed_downloads (fst s1)"
  let ?R = "stage_results net ?L (retry, snd s1)"
  have L: "?L = failing (stage_results net batch (dl, w))"
    unfolding s1 batch using fresh by (simp add: download_batch_failed)
  have Lle: "count_list ?L v \<le> count_list batch v" for v
    unfolding L using count_failing_le [of "stage_results net batch (dl, w)" v]
    by (simp add: stage_results_urls)
  have run: "s2 = download_batch net unzip ?L 0 None (retry, snd s1)" if "?L \<noteq> []"
    unfolding s2 retry using that s1
    by (cases "download_batch net unzip urls start_idx end_idx (dl, w)")
       (simp add: main_passes_def Let_def)
  have stay: "s2 = s1" if "?L = []"
    unfolding s2 using that s1
    by (cases "download_batch net unzip urls start_idx end_idx (dl, w)")
       (simp add: main_passes_def Let_def)
  have final: "failed_downloads (fst s2) = failing ?R" if "?L \<noteq> []"
    unfolding run [OF that]
    using download_batch_failed [of net unzip ?L 0 None retry "snd s1"]
    by (simp add: py_slice_all retry)
  have bound: "count_list (failed_downloads (fst s2)) v \<le> count_list batch v" for v
  proof (cases "?L = []")
    case True
    then show ?thesis using stay by simp
  next
    case False
    have "count_list (failing ?R) v \<le> count_list (map fst ?R) v"
      by (rule count_failing_le)
    also have "\<dots> = count_list ?L v"
      by (simp add: stage_results_urls)
    also have "\<dots> \<le> count_list batch v" by (rule Lle)
    finally show ?thesis using final [OF False] by simp
  qed
  have once: "count_list (failed_downloads (fst s2)) u = 1"
    if "count_list batch u = 1"
      and "(u, False) \<in> set (stage_results net batch (dl, w))"
      and "(u, False) \<in> set ?R"
  proof -
    have "u \<in> set ?L" unfolding L using that(2) by (rule failing_member)
    then have ne: "?L \<noteq> []" by auto
    have "u \<in> set (failing ?R)" using that(3) by (rule failing_member)
    then have "0 < count_list (failed_downloads (fst s2)) u"
      unfolding final [OF ne] by (metis count_list_0_iff gr0I)
    moreover have "count_list (failed_downloads (fst s2)) u \<le> 1"
      using bound [of u] that(1) by simp
    ultimately show ?thesis by simp
  qed
  from run bound once show ?thesis by blast
qed

theorem retry_pass_records_once_witness:
  "count_list (failed_downloads (fst (main_passes always_503 no_archive True [example_url] 0 None
      (example_dl, initial_world)))) example_url = 1"
  using retry_pass_records_once [where dl = example_dl and w = initial_world and net = always_503 and unzip = no_archive
      and urls = "[example_url]" and start_idx = 0 and end_idx = None and u = example_url,
      OF _ refl refl refl refl, THEN conjunct2, THEN conjunct2]
    retry_example_once retry_example_first retry_example_second
  by (simp add: example_dl_simps)

section \<open>The archive transformer\<close>

lemma mkdir_walk_frame:
  "mkdir_walk fs pre cs = Inr fs' \<Longrightarrow> fs' p = fs p \<or> (fs p = None \<and> fs' p = Some Dir)"
proof (induction cs arbitrary: fs pre)
  case Nil
  then show ?case by simp
next
  case (Cons c cs)
  show ?case
  proof (cases "fs (pre @ [c])")
    case None
    then have "mkdir_walk (fs(pre @ [c] \<mapsto> Dir)) (pre @ [c]) cs = Inr fs'"
      using Cons.prems by simp
    then have "fs' p = (fs(pre @ [c] \<mapsto> Dir)) p
        \<or> ((fs(pre @ [c] \<mapsto> Dir)) p = None \<and> fs' p = Some Dir)"
      by (rule Cons.IH)
    then show ?thesis using None by (cases "p = pre @ [c]") auto
  next
    case (Some n)
    then show ?thesis using Cons.prems Cons.IH [of fs "pre @ [c]"] by (cases n) auto
  qed
qed

lemma mkdir_walk_last:
  "mkdir_walk fs pre cs = Inr fs' \<Longrightarrow> cs \<noteq> [] \<Longrightarrow> fs' (pre @ cs) = Some Dir"
proof (induction cs arbitrary: fs pre)
  case Nil
  then show ?case by simp
next
  case (Cons c cs)
  obtain fs1 where s: "mkdir_walk fs1 (pre @ [c]) cs = Inr fs'" "fs1 (pre @ [c]) = Some Dir"
  proof (cases "fs (pre @ [c])")
    case None
    then show ?thesis using Cons.prems that [of "fs(pre @ [c] \<mapsto> Dir)"] by simp
  next
    case (Some n)
    then show ?thesis using Cons.prems that [of fs] by (cases n) auto
  qed
  show ?case
  proof (cases "cs = []")
    case True
    then show ?thesis using s by simp
  next
    case False
    then show ?thesis using Cons.IH [OF s(1)] by simp
  qed
qed

lemma mkdir_parents_frame:
  "mkdir_parents fs q = Inr fs' \<Longrightarrow> fs' p = fs p \<or> (fs p = None \<and> fs' p = Some Dir)"
  unfolding mkdir_parents_def by (rule mkdir_walk_frame)

lemma mkdir_parents_dir:
  "mkdir_parents fs q = Inr fs' \<Longrightarrow> q \<noteq> [] \<Longrightarrow> fs' q = Some Dir"
  unfolding mkdir_parents_def using mkdir_walk_last [of fs "[]" q fs'] by simp

lemma grows_refl: "grows fs fs"
  by (simp add: grows_def)

lemma grows_trans: "grows a b \<Longrightarrow> grows b c \<Longrightarrow> grows a c"
  unfolding grows_def by blast

lemma grows_mkdir: "mkdir_parents fs q = Inr fs' \<Longrightarrow> grows fs fs'"
  unfolding grows_def using mkdir_parents_frame [of fs q fs'] by (metis option.distinct(1))

lemma grows_write: "fs t \<noteq> Some Dir \<Longrightarrow> grows fs (fs(t \<mapsto> File b))"
  by (auto simp: grows_def)

lemma extract_loop_step:
  obtains
    (excluded) "\<not> kept n"
      "extract_loop dem entries (n # rest) fs acc = extract_loop dem entries rest fs acc"
  | (mkdir_fails) e where
      "extract_loop dem entries (n # rest) fs acc = (Inl e, fs)"
  | (directory) fs1 where "\<not> kept n"
      "mkdir_parents fs (parent (path_join dem n)) = Inr fs1"
      "extract_loop dem entries (n # rest) fs acc = extract_loop dem entries rest fs1 acc"
  | (fails) e fs1 where "kept n"
      "mkdir_parents fs (parent (path_join dem n)) = Inr fs1"
      "extract_loop dem entries (n # rest) fs acc = (Inl e, fs1)"
  | (read_fails) e fs1 where "kept n"
      "mkdir_parents fs (parent (path_join dem n)) = Inr fs1"
      "fs1 (path_join dem n) \<noteq> Some Dir"
      "extract_loop dem entries (n # rest) fs acc = (Inl e, fs1(path_join dem n \<mapsto> File []))"
  | (written) fs1 b where "kept n"
      "mkdir_parents fs (parent (path_join dem n)) = Inr fs1"
      "fs1 (path_join dem n) \<noteq> Some Dir"
      "zip_open entries n = Some (Data b)"
      "extract_loop dem entries (n # rest) fs acc =
         extract_loop dem entries rest (fs1(path_join dem n \<mapsto> File b))
           (acc @ [path_str (path_join dem n)])"
proof (cases "endswith n ''_num.tif''")
  case True
  then show ?thesis using excluded by (simp add: kept_def)
next
  case notnum: False
  show ?thesis
  proof (cases "mkdir_parents fs (parent (path_join dem n))")
    case (Inl e)
    then show ?thesis using mkdir_fails [of e] notnum by (simp add: Let_def)
  next
    case (Inr fs1)
    show ?thesis
    proof (cases "endswith n ''/''")
      case True
      then show ?thesis using directory [of fs1] notnum Inr by (simp add: Let_def kept_def)
    next
      case False
      then have k: "kept n" using notnum by (simp add: kept_def)
      show ?thesis
      proof (cases "zip_open entries n")
        case None
        then show ?thesis using fails [of fs1] k Inr notnum False by (simp add: Let_def)
      next
        case (Some d)
        show ?thesis
        proof (cases "fs1 (path_join dem n) = Some Dir")
          case True
          then show ?thesis
            using fails [of fs1] k Inr notnum False Some by (cases d) (simp_all add: Let_def)
        next
          case nd: False
          show ?thesis
          proof (cases d)
            case (Data b)
            then show ?thesis
              using written [of fs1 b] k Inr notnum False Some nd by (simp add: Let_def)
          next
            case OpenFails
            then show ?thesis
              using fails [of fs1] k Inr notnum False Some by (simp add: Let_def)
          next
            case ReadFails
            then show ?thesis
              using read_fails [of fs1] k Inr notnum False Some nd by (simp add: Let_def)
          qed
        qed
      qed
    qed
  qed
qed

lemma extract_loop_frame:
  "extract_loop dem entries names fs acc = (r, fs') \<Longrightarrow>
   p \<notin> path_join dem ` {n \<in> set names. kept n} \<Longrightarrow>
   fs' p = fs p \<or> (fs p = None \<and> fs' p = Some Dir)"
proof (induction names arbitrary: fs acc)
  case Nil
  then show ?case by simp
next
  case (Cons n rest)
  have rest: "p \<notin> path_join dem ` {n \<in> set rest. kept n}"
    using Cons.prems(2) by auto
  show ?case
  proof (cases rule: extract_loop_step [of n dem entries rest fs acc])
    case excluded
    then show ?thesis using Cons.prems(1) Cons.IH [OF _ rest] by simp
  next
    case (mkdir_fails e)
    then show ?thesis using Cons.prems(1) by simp
  next
    case (directory fs1)
    then have "extract_loop dem entries rest fs1 acc = (r, fs')"
      using Cons.prems(1) by simp
    from Cons.IH [OF this rest] mkdir_parents_frame [OF directory(2), of p]
    show ?thesis by auto
  next
    case (fails e fs1)
    then show ?thesis
      using Cons.prems(1) mkdir_parents_frame [OF fails(2), of p] by auto
  next
    case (read_fails e fs1)
    then have "p \<noteq> path_join dem n" using Cons.prems(2) by auto
    then show ?thesis
      using read_fails Cons.prems(1) mkdir_parents_frame [OF read_fails(2), of p] by auto
  next
    case (written fs1 b)
    then have pt: "p \<noteq> path_join dem n" using Cons.prems(2) by auto
    have "extract_loop dem entries rest (fs1(path_join dem n \<mapsto> File b))
            (acc @ [path_str (path_join dem n)]) = (r, fs')"
      using written Cons.prems(1) by simp
    from Cons.IH [OF this rest] mkdir_parents_frame [OF written(2), of p] pt
    show ?thesis by auto
  qed
qed

lemma extract_loop_grows:
  "extract_loop dem entries names fs acc = (r, fs') \<Longrightarrow> grows fs fs'"
proof (induction names arbitrary: fs acc)
  case Nil
  then show ?case by (simp add: grows_refl)
next
  case (Cons n rest)
  show ?case
  proof (cases rule: extract_loop_step [of n dem entries rest fs acc])
    case excluded
    then show ?thesis using Cons by simp
  next
    case (mkdir_fails e)
    then show ?thesis using Cons.prems by (simp add: grows_refl)
  next
    case (directory fs1)
    then show ?thesis using Cons grows_mkdir grows_trans by metis
  next
    case (fails e fs1)
    then show ?thesis using Cons.prems grows_mkdir by auto
  next
    case (read_fails e fs1)
    then show ?thesis using Cons.prems grows_mkdir grows_write grows_trans by (metis snd_conv)
  next
    case (written fs1 b)
    then have "grows (fs1(path_join dem n \<mapsto> File b)) fs'" using Cons by simp
    then show ?thesis using written grows_mkdir grows_write grows_trans by metis
  qed
qed

lemma extract_loop_success:
  "extract_loop dem entries names fs acc = (Inr ex, fs') \<Longrightarrow>
     ex = acc @ map (\<lambda>n. path_str (path_join dem n)) (filter kept names)
   \<and> (\<forall>n \<in> set (filter kept names).
         (\<exists>b. fs' (path_join dem n) = Some (File b))
       \<and> (parent (path_join dem n) \<noteq> [] \<longrightarrow> fs' (parent (path_join dem n)) = Some Dir))"
proof (induction names arbitrary: fs acc)
  case Nil
  then show ?case by simp
next
  case (Cons n rest)
  show ?case
  proof (cases rule: extract_loop_step [of n dem entries rest fs acc])
    case excluded
    then show ?thesis using Cons by simp
  next
    case (mkdir_fails e)
    then show ?thesis using Cons.prems by simp
  next
    case (directory fs1)
    then show ?thesis using Cons by simp
  next
    case (fails e fs1)
    then show ?thesis using Cons.prems by simp
  next
    case (read_fails e fs1)
    then show ?thesis using Cons.prems by simp
  next
    case (written fs1 b)
    let ?t = "path_join dem n"
    let ?fs2 = "fs1(?t \<mapsto> File b)"
    have run: "extract_loop dem entries rest ?fs2 (acc @ [path_str ?t]) = (Inr ex, fs')"
      using written Cons.prems by simp
    have g: "grows ?fs2 fs'" using run by (rule extract_loop_grows)
    have isfile: "\<exists>b'. fs' ?t = Some (File b')"
      using g by (simp add: grows_def)
    have dir: "parent ?t \<noteq> [] \<longrightarrow> fs' (parent ?t) = Some Dir"
    proof
      assume ne: "parent ?t \<noteq> []"
      have d1: "fs1 (parent ?t) = Some Dir"
        using written(2) ne by (rule mkdir_parents_dir)
      then have "parent ?t \<noteq> ?t" using written(3) by auto
      then have "?fs2 (parent ?t) = Some Dir" using d1 by simp
      then show "fs' (parent ?t) = Some Dir" using g by (simp add: grows_def)
    qed
    show ?thesis
      using Cons.IH [OF run] written(1) isfile dir by simp
  qed
qed

lemma extract_loop_content:
  "extract_loop dem entries names fs acc = (Inr ex, fs') \<Longrightarrow>
   distinct (map (path_join dem) (filter kept names)) \<Longrightarrow>
   n \<in> set (filter kept names) \<Longrightarrow> zip_open entries n = Some (Data b) \<Longrightarrow>
   fs' (path_join dem n) = Some (File b)"
proof (induction names arbitrary: fs acc)
  case Nil
  then show ?case by simp
next
  case (Cons m rest)
  show ?case
  proof (cases rule: extract_loop_step [of m dem entries rest fs acc])
    case excluded
    then show ?thesis using Cons by simp
  next
    case (mkdir_fails e)
    then show ?thesis using Cons.prems by simp
  next
    case (directory fs1)
    then show ?thesis using Cons by simp
  next
    case (fails e fs1)
    then show ?thesis using Cons.prems by simp
  next
    case (read_fails e fs1)
    then show ?thesis using Cons.prems by simp
  next
    case (written fs1 c)
    let ?t = "path_join dem m"
    let ?fs2 = "fs1(?t \<mapsto> File c)"
    have run: "extract_loop dem entries rest ?fs2 (acc @ [path_str ?t]) = (Inr ex, fs')"
      using written Cons.prems by simp
    have d: "distinct (map (path_join dem) (filter kept rest))"
      "?t \<notin> path_join dem ` {n \<in> set rest. kept n}"
      using Cons.prems(2) written(1) by auto
    show ?thesis
    proof (cases "n = m")
      case True
      then have "c = b" using written(4) Cons.prems(4) by simp
      then show ?thesis
        using extract_loop_frame [OF run d(2)] True by auto
    next
      case False
      then have "n \<in> set (filter kept rest)" using Cons.prems(3) by (auto split: if_splits)
      then show ?thesis using Cons.IH [OF run d(1) _ Cons.prems(4)] by simp
    qed
  qed
qed

lemma archive_world_staged: "files archive_world (path_of ''data/temp_zips/a.zip'') = Some (File ''zip bytes'')"
  by code_simp

lemma example_archive_extracted:
  "fst (process_zip (\<lambda>b. Some example_archive) example_dl ''data/temp_zips/a.zip'' archive_world)
     = (''data/temp_zips/a.zip'', True, [''data/aster30m/a_dem.tif'', ''data/aster30m/readme.txt''])"
  by code_simp

lemma example_archive_names:
  "kept_names example_archive = [''a_dem.tif'', ''readme.txt'']"
  "target example_dl ''a_dem.tif'' = [''data'', ''aster30m'', ''a_dem.tif'']"
  "target example_dl ''readme.txt'' = [''data'', ''aster30m'', ''readme.txt'']"
  "zip_open example_archive ''a_dem.tif'' = Some (Data ''DEM'')"
  "zip_open example_archive ''readme.txt'' = Some (Data ''README'')"
  "files archive_world [''data'', ''aster30m'', ''a_num.tif''] = None"
  by code_simp+

lemma extract_loop_cons:
  "extract_loop dem entries (m # rest) fs acc =
     (case extract_loop dem entries [m] fs acc of
        (Inl e, f) \<Rightarrow> (Inl e, f)
      | (Inr ex, f) \<Rightarrow> extract_loop dem entries rest f ex)"
  by (simp add: Let_def split: sum.splits option.splits entry_data.splits)

lemma extract_loop_failure:
  "extract_loop dem entries names fs acc = (Inl e, fs') \<Longrightarrow>
   \<exists>pre n post ex fs1. names = pre @ n # post
     \<and> extract_loop dem entries pre fs acc = (Inr ex, fs1)
     \<and> extract_loop dem entries [n] fs1 ex = (Inl e, fs')"
proof (induction names arbitrary: fs acc)
  case Nil
  then show ?case by simp
next
  case (Cons m rest)
  obtain r1 f1 where s: "extract_loop dem entries [m] fs acc = (r1, f1)"
    by (metis surj_pair)
  show ?case
  proof (cases r1)
    case (Inl e1)
    then have "extract_loop dem entries [m] fs acc = (Inl e, fs')"
      using Cons.prems s extract_loop_cons [of dem entries m rest fs acc] by simp
    then have "m # rest = [] @ m # rest
       \<and> extract_loop dem entries [] fs acc = (Inr acc, fs)
       \<and> extract_loop dem entries [m] fs acc = (Inl e, fs')"
      by simp
    then show ?thesis by blast
  next
    case (Inr ex1)
    then have "extract_loop dem entries rest f1 ex1 = (Inl e, fs')"
      using Cons.prems s extract_loop_cons [of dem entries m rest fs acc] by simp
    then obtain pre n post ex fs1 where i: "rest = pre @ n # post"
        "extract_loop dem entries pre f1 ex1 = (Inr ex, fs1)"
        "extract_loop dem entries [n] fs1 ex = (Inl e, fs')"
      using Cons.IH [of f1 ex1] by blast
    have "extract_loop dem entries (m # pre) fs acc = (Inr ex, fs1)"
      using extract_loop_cons [of dem entries m pre fs acc] s Inr i(2) by simp
    then have "m # rest = (m # pre) @ n # post
       \<and> extract_loop dem entries (m # pre) fs acc = (Inr ex, fs1)
       \<and> extract_loop dem entries [n] fs1 ex = (Inl e, fs')"
      using i by simp
    then show ?thesis by blast
  qed
qed

lemma process_zip_failure:
  assumes z: "files w (path_of zip_path) = Some (File z)"
    and u: "unzip z = Some entries"
    and run: "process_zip unzip dl zip_path w = ((name, ok, extracted), w')"
  shows "\<not> ok \<longrightarrow>
       extracted = []
     \<and> (\<exists>pre n post ex fs1 e.
           map fst entries = pre @ n # post
         \<and> extract_loop (dem_dir dl) entries pre (files w) [] = (Inr ex, fs1)
         \<and> extract_loop (dem_dir dl) entries [n] fs1 ex = (Inl e, files w')
         \<and> (\<forall>m \<in> set (filter kept pre). \<exists>b. files w' (target dl m) = Some (File b))
         \<and> (\<forall>p b. files w' p = Some (File b) \<and> files w p \<noteq> Some (File b)
               \<longrightarrow> p \<in> target dl ` set (filter kept (pre @ [n])))
         \<and> (distinct (map (target dl) (filter kept (pre @ [n]))) \<longrightarrow>
               (\<forall>m \<in> set (filter kept pre). \<forall>b.
                   zip_open entries m = Some (Data b) \<longrightarrow> files w' (target dl m) = Some (File b))))"
proof
  assume nok: "\<not> ok"
  let ?dem = "dem_dir dl"
  obtain r fs' where l: "extract_loop ?dem entries (map fst entries) (files w) [] = (r, fs')"
    by (metis surj_pair)
  have w': "files w' = fs'"
    using run z u l by (cases r) (auto simp: process_zip_def Let_def exists_def)
  have ex: "extracted = []"
    using nok run z u l by (cases r) (auto simp: process_zip_def Let_def exists_def)
  obtain e where r: "r = Inl e"
    using nok run z u l by (cases r) (auto simp: process_zip_def Let_def exists_def)
  have t: "target dl = path_join ?dem"
    by (rule ext) (simp add: target_def)
  obtain pre n post ex1 fs1 where i: "map fst entries = pre @ n # post"
      "extract_loop ?dem entries pre (files w) [] = (Inr ex1, fs1)"
      "extract_loop ?dem entries [n] fs1 ex1 = (Inl e, fs')"
    using extract_loop_failure [of ?dem entries "map fst entries" "files w" "[]" e fs'] l r
    by blast
  have g: "grows fs1 fs'" using i(3) by (rule extract_loop_grows)
  have a: "\<forall>m \<in> set (filter kept pre). \<exists>b. fs' (path_join ?dem m) = Some (File b)"
  proof
    fix m assume "m \<in> set (filter kept pre)"
    then have "\<exists>b. fs1 (path_join ?dem m) = Some (File b)"
      using extract_loop_success [OF i(2)] by blast
    then show "\<exists>b. fs' (path_join ?dem m) = Some (File b)"
      using g unfolding grows_def by blast
  qed
  have b: "\<forall>p b. fs' p = Some (File b) \<and> files w p \<noteq> Some (File b)
               \<longrightarrow> p \<in> path_join ?dem ` set (filter kept (pre @ [n]))"
  proof (intro allI impI)
    fix p b
    assume h: "fs' p = Some (File b) \<and> files w p \<noteq> Some (File b)"
    show "p \<in> path_join ?dem ` set (filter kept (pre @ [n]))"
    proof (rule ccontr)
      assume no: "p \<notin> path_join ?dem ` set (filter kept (pre @ [n]))"
      then have n1: "p \<notin> path_join ?dem ` {x \<in> set pre. kept x}"
        and n2: "p \<notin> path_join ?dem ` {x \<in> set [n]. kept x}"
        by auto
      have "fs' p = fs1 p \<or> (fs1 p = None \<and> fs' p = Some Dir)"
        using i(3) n2 by (rule extract_loop_frame)
      then have "fs1 p = Some (File b)" using h by auto
      moreover have "fs1 p = files w p \<or> (files w p = None \<and> fs1 p = Some Dir)"
        using i(2) n1 by (rule extract_loop_frame)
      ultimately show False using h by auto
    qed
  qed
  have c: "\<forall>m \<in> set (filter kept pre). \<forall>b.
             zip_open entries m = Some (Data b) \<longrightarrow> fs' (path_join ?dem m) = Some (File b)"
    if d: "distinct (map (path_join ?dem) (filter kept (pre @ [n])))"
  proof (intro ballI allI impI)
    fix m b
    assume m: "m \<in> set (filter kept pre)" and o: "zip_open entries m = Some (Data b)"
    have d1: "distinct (map (path_join ?dem) (filter kept pre))"
      using d by simp
    have f1: "fs1 (path_join ?dem m) = Some (File b)"
      using i(2) d1 m o by (rule extract_loop_content)
    have "path_join ?dem m \<notin> path_join ?dem ` {x \<in> set [n]. kept x}"
      using d m by auto
    then have "fs' (path_join ?dem m) = fs1 (path_join ?dem m)
        \<or> (fs1 (path_join ?dem m) = None \<and> fs' (path_join ?dem m) = Some Dir)"
      using i(3) by (intro extract_loop_frame)
    then show "fs' (path_join ?dem m) = Some (File b)" using f1 by auto
  qed
  show "extracted = []
     \<and> (\<exists>pre n post ex fs1 e.
           map fst entries = pre @ n # post
         \<and> extract_loop (dem_dir dl) entries pre (files w) [] = (Inr ex, fs1)
         \<and> extract_loop (dem_dir dl) entries [n] fs1 ex = (Inl e, files w')
         \<and> (\<forall>m \<in> set (filter kept pre). \<exists>b. files w' (target dl m) = Some (File b))
         \<and> (\<forall>p b. files w' p = Some (File b) \<and> files w p \<noteq> Some (File b)
               \<longrightarrow> p \<in> target dl ` set (filter kept (pre @ [n])))
         \<and> (distinct (map (target dl) (filter kept (pre @ [n]))) \<longrightarrow>
               (\<forall>m \<in> set (filter kept pre). \<forall>b.
                   zip_open entries m = Some (Data b) \<longrightarrow> files w' (target dl m) = Some (File b))))"
    unfolding w' t using ex i a b c by blast
qed

lemma broken_archive_fails:
  "fst (process_zip (\<lambda>b. Some broken_archive) example_dl ''data/temp_zips/a.zip'' archive_world)
     = (''data/temp_zips/a.zip'', False, [])"
  by code_simp

text \<open>
  Claim C5, as the code has it. For a staged file that \<^verbatim>\<open>zipfile\<close> reads as an archive:
  \<^item> whatever happens, the only regular files that \<^verbatim>\<open>process_zip\<close> writes are targets
    of kept entries: an entry whose name ends with \<^verbatim>\<open>_num.tif\<close> is never written, nor is
    a directory entry;
  \<^item> when \<^verbatim>\<open>process_zip\<close> reports success, the list it returns is the list of the
    targets of the kept entries in the order of the archive, every such target
    \<^verbatim>\<open>dem_dir / file_name\<close> is a regular file afterwards and its parent is a directory;
  \<^item> when moreover no two kept entries have the same target, each target holds the
    bytes of its entry;
  \<^item> when \<^verbatim>\<open>process_zip\<close> reports failure, the list it returns is empty and the
    extraction has stopped at one entry: the entries before it have been processed
    without error, the step for that entry has raised, and the file system is the one
    that this step has left. The kept entries before the failing one are regular files
    on disk (with the bytes of their entries when the targets up to the failing entry
    are distinct), and no entry after the failing one has been written.
  For the archive with the entries \<^verbatim>\<open>a_dem.tif\<close>, \<^verbatim>\<open>a_num.tif\<close> and \<^verbatim>\<open>readme.txt\<close> the
  result is the two files \<^verbatim>\<open>a_dem.tif\<close> and \<^verbatim>\<open>readme.txt\<close> under the output root.
\<close>

theorem process_zip_extracts_kept:
  assumes z: "files w (path_of zip_path) = Some (File z)"
    and u: "unzip z = Some entries"
    and run: "process_zip unzip dl zip_path w = ((name, ok, extracted), w')"
  shows "(\<forall>p b. files w' p = Some (File b) \<and> files w p \<noteq> Some (File b)
            \<longrightarrow> p \<in> target dl ` set (kept_names entries))
     \<and> (ok \<longrightarrow>
           extracted = map (\<lambda>n. path_str (target dl n)) (kept_names entries)
         \<and> (\<forall>n \<in> set (kept_names entries).
               (\<exists>b. files w' (target dl n) = Some (File b))
             \<and> (parent (target dl n) \<noteq> [] \<longrightarrow> files w' (parent (target dl n)) = Some Dir)))
     \<and> (ok \<and> distinct (map (target dl) (kept_names entries)) \<longrightarrow>
           (\<forall>n \<in> set (kept_names entries). \<forall>b.
               zip_open entries n = Some (Data b) \<longrightarrow> files w' (target dl n) = Some (File b)))
     \<and> (\<not> ok \<longrightarrow>
           extracted = []
         \<and> (\<exists>pre n post ex fs1 e.
               map fst entries = pre @ n # post
             \<and> extract_loop (dem_dir dl) entries pre (files w) [] = (Inr ex, fs1)
             \<and> extract_loop (dem_dir dl) entries [n] fs1 ex = (Inl e, files w')
             \<and> (\<forall>m \<in> set (filter kept pre). \<exists>b. files w' (target dl m) = Some (File b))
             \<and> (\<forall>p b. files w' p = Some (File b) \<and> files w p \<noteq> Some (File b)
                   \<longrightarrow> p \<in> target dl ` set (filter kept (pre @ [n])))
             \<and> (distinct (map (target dl) (filter kept (pre @ [n]))) \<longrightarrow>
                   (\<forall>m \<in> set (filter kept pre). \<forall>b.
                       zip_open entries m = Some (Data b)
                       \<longrightarrow> files w' (target dl m) = Some (File b)))))"
proof -
  note d = process_zip_failure [OF z u run]
  obtain r fs' where l: "extract_loop (dem_dir dl) entries (map fst entries) (files w) [] = (r, fs')"
    by (metis surj_pair)
  have w': "files w' = fs'"
    using run z u l by (cases r) (auto simp: process_zip_def Let_def exists_def)
  have ok: "r = Inr extracted" if ok
    using that run z u l by (cases r) (auto simp: process_zip_def Let_def exists_def)
  have t: "target dl = path_join (dem_dir dl)"
    by (rule ext) (simp add: target_def)
  have s: "set (kept_names entries) = {n \<in> set (map fst entries). kept n}"
    by (auto simp: kept_names_def)
  have a: "\<forall>p b. files w' p = Some (File b) \<and> files w p \<noteq> Some (File b)
            \<longrightarrow> p \<in> target dl ` set (kept_names entries)"
    unfolding w' t s using extract_loop_frame [OF l] by (metis node.distinct(1) option.inject)
  have b: "ok \<longrightarrow>
           extracted = map (\<lambda>n. path_str (target dl n)) (kept_names entries)
         \<and> (\<forall>n \<in> set (kept_names entries).
               (\<exists>b. files w' (target dl n) = Some (File b))
             \<and> (parent (target dl n) \<noteq> [] \<longrightarrow> files w' (parent (target dl n)) = Some Dir))"
    unfolding w' t kept_names_def using extract_loop_success [of "dem_dir dl" entries "map fst entries" "files w" "[]" extracted fs'] l ok
    by auto
  have c: "ok \<and> distinct (map (target dl) (kept_names entries)) \<longrightarrow>
           (\<forall>n \<in> set (kept_names entries). \<forall>b.
               zip_open entries n = Some (Data b) \<longrightarrow> files w' (target dl n) = Some (File b))"
    unfolding w' t kept_names_def
    using extract_loop_content [of "dem_dir dl" entries "map fst entries" "files w" "[]" extracted fs'] l ok
    by auto
  show ?thesis by (rule conjI [OF a conjI [OF b conjI [OF c d]]])
qed

theorem process_zip_extracts_kept_witness:
  "fst (process_zip (\<lambda>b. Some example_archive) example_dl ''data/temp_zips/a.zip'' archive_world)
     = (''data/temp_zips/a.zip'', True, [''data/aster30m/a_dem.tif'', ''data/aster30m/readme.txt''])
   \<and> files (snd (process_zip (\<lambda>b. Some example_archive) example_dl ''data/temp_zips/a.zip'' archive_world))
        [''data'', ''aster30m'', ''a_dem.tif''] = Some (File ''DEM'')
   \<and> files (snd (process_zip (\<lambda>b. Some example_archive) example_dl ''data/temp_zips/a.zip'' archive_world))
        [''data'', ''aster30m'', ''readme.txt''] = Some (File ''README'')
   \<and> files (snd (process_zip (\<lambda>b. Some example_archive) example_dl ''data/temp_zips/a.zip'' archive_world))
        [''data'', ''aster30m''] = Some Dir
   \<and> (\<forall>b. files (snd (process_zip (\<lambda>b. Some example_archive) example_dl ''data/temp_zips/a.zip'' archive_world))
        [''data'', ''aster30m'', ''a_num.tif''] \<noteq> Some (File b))
   \<and> \<not> fst (snd (fst (process_zip (\<lambda>b. Some broken_archive) example_dl ''data/temp_zips/a.zip'' archive_world)))
   \<and> snd (snd (fst (process_zip (\<lambda>b. Some broken_archive) example_dl ''data/temp_zips/a.zip'' archive_world))) = []
   \<and> (\<exists>pre n post. map fst broken_archive = pre @ n # post
        \<and> (\<forall>m \<in> set (filter kept pre). \<exists>b.
              files (snd (process_zip (\<lambda>b. Some broken_archive) example_dl ''data/temp_zips/a.zip'' archive_world))
                (target example_dl m) = Some (File b)))"
proof -
  let ?R = "process_zip (\<lambda>b. Some example_archive) example_dl ''data/temp_zips/a.zip'' archive_world"
  have run: "?R = ((fst (fst ?R), fst (snd (fst ?R)), snd (snd (fst ?R))), snd ?R)"
    by simp
  have ok: "fst (snd (fst ?R))" using example_archive_extracted by simp
  note t = process_zip_extracts_kept [where unzip = "\<lambda>b. Some example_archive", OF archive_world_staged refl run]
  have a: "\<forall>b. files (snd ?R) [''data'', ''aster30m'', ''a_num.tif''] \<noteq> Some (File b)"
  proof (intro allI notI)
    fix b
    assume "files (snd ?R) [''data'', ''aster30m'', ''a_num.tif''] = Some (File b)"
    then have "[''data'', ''aster30m'', ''a_num.tif''] \<in> target example_dl ` set (kept_names example_archive)"
      using t [THEN conjunct1, THEN spec, THEN spec, of "[''data'', ''aster30m'', ''a_num.tif'']" b]
      by (simp add: example_archive_names)
    then show False by (simp add: example_archive_names)
  qed
  have b: "files (snd ?R) [''data'', ''aster30m'', ''a_dem.tif''] = Some (File ''DEM'')
     \<and> files (snd ?R) [''data'', ''aster30m'', ''readme.txt''] = Some (File ''README'')"
    using t [THEN conjunct2, THEN conjunct2] ok by (simp add: example_archive_names)
  have c: "files (snd ?R) [''data'', ''aster30m''] = Some Dir"
    using t [THEN conjunct2, THEN conjunct1] ok by (simp add: example_archive_names parent_def)
  let ?B = "process_zip (\<lambda>b. Some broken_archive) example_dl ''data/temp_zips/a.zip'' archive_world"
  have run2: "?B = ((fst (fst ?B), fst (snd (fst ?B)), snd (snd (fst ?B))), snd ?B)"
    by simp
  have nok: "\<not> fst (snd (fst ?B))" using broken_archive_fails by simp
  note t2 = process_zip_extracts_kept [where unzip = "\<lambda>b. Some broken_archive",
      OF archive_world_staged refl run2]
  have d: "snd (snd (fst ?B)) = []
     \<and> (\<exists>pre n post. map fst broken_archive = pre @ n # post
        \<and> (\<forall>m \<in> set (filter kept pre). \<exists>b. files (snd ?B) (target example_dl m) = Some (File b)))"
    using t2 [THEN conjunct2, THEN conjunct2, THEN conjunct2] nok by blast
  from a b c d nok example_archive_extracted show ?thesis by simp
qed

text \<open>
  The claim C5 as it is written holds of every archive. When an entry cannot be read,
  the \<^verbatim>\<open>except\<close> clause of \<^verbatim>\<open>process_zip\<close> ends the extraction: the result is a failure
  with an empty list although \<^verbatim>\<open>a_dem.tif\<close> has been written, and the kept entry
  \<^verbatim>\<open>readme.txt\<close> after the broken one is not written.
\<close>

theorem process_zip_stops_at_broken_entry:
  "fst (process_zip (\<lambda>b. Some broken_archive) example_dl ''data/temp_zips/a.zip'' archive_world)
     = (''data/temp_zips/a.zip'', False, [])
   \<and> files (snd (process_zip (\<lambda>b. Some broken_archive) example_dl ''data/temp_zips/a.zip'' archive_world))
        [''data'', ''aster30m'', ''a_dem.tif''] = Some (File ''DEM'')
   \<and> ''readme.txt'' \<in> set (kept_names broken_archive)
   \<and> files (snd (process_zip (\<lambda>b. Some broken_archive) example_dl ''data/temp_zips/a.zip'' archive_world))
        (target example_dl ''readme.txt'') = None"
  by code_simp

section \<open>The reprocess pass\<close>

lemma process_zip_events:
  "events (snd (process_zip unzip dl s w)) = events w @ [Extraction (path_str (path_of s))]"
  by (simp add: process_zip_def Let_def split: option.split node.split sum.split prod.split)

lemma process_zip_config:
  assumes "dem_dir a = dem_dir b"
  shows "process_zip unzip a s w = process_zip unzip b s w"
  unfolding process_zip_def assms by (rule refl)

lemma reprocess_loop_events:
  "events (snd (reprocess_loop unzip dl zs (a, b) w))
     = events w @ map (\<lambda>z. Extraction (path_str (path_of (path_str z)))) zs
   \<and> fst (fst (reprocess_loop unzip dl zs (a, b) w))
       + snd (fst (reprocess_loop unzip dl zs (a, b) w)) = a + b + length zs"
proof (induction zs arbitrary: a b w)
  case Nil
  show ?case by simp
next
  case (Cons z zs)
  obtain n ok ex w' where p: "process_zip unzip dl (path_str z) w = ((n, ok, ex), w')"
    by (metis surj_pair)
  have e: "events w' = events w @ [Extraction (path_str (path_of (path_str z)))]"
    using process_zip_events [of unzip dl "path_str z" w] p by simp
  show ?case
    using p e Cons.IH [of "a + 1" b w'] Cons.IH [of a "b + 1" w']
    by (cases ok) simp_all
qed

lemma reprocess_loop_config:
  "dem_dir a = dem_dir b \<Longrightarrow> reprocess_loop unzip a zs c w = reprocess_loop unzip b zs c w"
proof (induction zs arbitrary: c w)
  case Nil
  show ?case by (cases c) simp
next
  case (Cons z zs)
  obtain x y where c: "c = (x, y)" by (cases c)
  show ?case
    unfolding c using process_zip_config [OF Cons.prems] Cons.IH [OF Cons.prems]
    by (simp split: prod.split)
qed

lemma mkdir_walk_succeeds:
  "\<forall>d \<in> set (walk_steps pre cs). \<not> is_file fs d \<Longrightarrow>
   \<exists>fs'. mkdir_walk fs pre cs = Inr fs'
        \<and> (\<forall>q. q \<notin> set (walk_steps pre cs) \<longrightarrow> fs' q = fs q)"
proof (induction cs arbitrary: fs pre)
  case Nil
  show ?case by simp
next
  case (Cons c cs)
  have nf: "\<not> is_file fs (pre @ [c])" using Cons.prems by simp
  show ?case
  proof (cases "fs (pre @ [c])")
    case None
    let ?fs2 = "fs(pre @ [c] \<mapsto> Dir)"
    have "\<forall>d \<in> set (walk_steps (pre @ [c]) cs). \<not> is_file ?fs2 d"
      using Cons.prems by (auto simp: is_file_def)
    then obtain fs' where f: "mkdir_walk ?fs2 (pre @ [c]) cs = Inr fs'"
        "\<forall>q. q \<notin> set (walk_steps (pre @ [c]) cs) \<longrightarrow> fs' q = ?fs2 q"
      using Cons.IH [of "pre @ [c]" ?fs2] by blast
    have "mkdir_walk fs pre (c # cs) = Inr fs'" using None f(1) by simp
    moreover have "\<forall>q. q \<notin> set (walk_steps pre (c # cs)) \<longrightarrow> fs' q = fs q"
      using f(2) by auto
    ultimately show ?thesis by blast
  next
    case (Some n)
    then have d: "n = Dir" using nf by (cases n) (auto simp: is_file_def)
    have "\<forall>d \<in> set (walk_steps (pre @ [c]) cs). \<not> is_file fs d"
      using Cons.prems by simp
    then obtain fs' where f: "mkdir_walk fs (pre @ [c]) cs = Inr fs'"
        "\<forall>q. q \<notin> set (walk_steps (pre @ [c]) cs) \<longrightarrow> fs' q = fs q"
      using Cons.IH [of "pre @ [c]" fs] by blast
    have "mkdir_walk fs pre (c # cs) = Inr fs'" using Some d f(1) by simp
    moreover have "\<forall>q. q \<notin> set (walk_steps pre (c # cs)) \<longrightarrow> fs' q = fs q"
      using f(2) by auto
    ultimately show ?thesis by blast
  qed
qed

lemma extract_loop_succeeds:
  assumes "\<forall>n \<in> set names. \<not> endswith n ''_num.tif'' \<longrightarrow>
             set (walk_steps [] (parent (path_join dem n))) \<subseteq> D"
    and "\<forall>n \<in> set names. kept n \<longrightarrow>
             path_join dem n \<in> T \<and> (\<exists>b. zip_open entries n = Some (Data b))"
    and "D \<inter> T = {}"
    and "\<forall>d \<in> D. \<not> is_file fs d"
    and "\<forall>t \<in> T. fs t \<noteq> Some Dir"
  shows "\<exists>ex fs'. extract_loop dem entries names fs acc = (Inr ex, fs')"
  using assms
proof (induction names arbitrary: fs acc)
  case Nil
  show ?case by simp
next
  case (Cons m rest)
  have r1: "\<forall>n \<in> set rest. \<not> endswith n ''_num.tif'' \<longrightarrow>
             set (walk_steps [] (parent (path_join dem n))) \<subseteq> D"
    and r2: "\<forall>n \<in> set rest. kept n \<longrightarrow>
             path_join dem n \<in> T \<and> (\<exists>b. zip_open entries n = Some (Data b))"
    using Cons.prems(1,2) by simp_all
  show ?case
  proof (cases "endswith m ''_num.tif''")
    case True
    then show ?thesis
      using Cons.IH [OF r1 r2 Cons.prems(3) Cons.prems(4) Cons.prems(5), of acc] by simp
  next
    case notnum: False
    let ?t = "path_join dem m"
    have sub: "set (walk_steps [] (parent ?t)) \<subseteq> D"
      using Cons.prems(1) notnum by simp
    then have "\<forall>d \<in> set (walk_steps [] (parent ?t)). \<not> is_file fs d"
      using Cons.prems(4) by blast
    then obtain fs1 where mk: "mkdir_walk fs [] (parent ?t) = Inr fs1"
        "\<forall>q. q \<notin> set (walk_steps [] (parent ?t)) \<longrightarrow> fs1 q = fs q"
      using mkdir_walk_succeeds [of "[]" "parent ?t" fs] by blast
    have mp: "mkdir_parents fs (parent ?t) = Inr fs1"
      using mk(1) by (simp add: mkdir_parents_def)
    have fr: "fs1 q = fs q \<or> (fs q = None \<and> fs1 q = Some Dir)" for q
      using mp by (rule mkdir_parents_frame)
    have i1: "\<forall>d \<in> D. \<not> is_file fs1 d"
    proof
      fix d assume "d \<in> D"
      then have "\<not> is_file fs d" using Cons.prems(4) by blast
      then show "\<not> is_file fs1 d" using fr [of d] by (auto simp: is_file_def)
    qed
    have i2: "\<forall>t \<in> T. fs1 t \<noteq> Some Dir"
    proof
      fix t assume t: "t \<in> T"
      then have "t \<notin> set (walk_steps [] (parent ?t))" using sub Cons.prems(3) by blast
      then have "fs1 t = fs t" using mk(2) by blast
      then show "fs1 t \<noteq> Some Dir" using Cons.prems(5) t by simp
    qed
    show ?thesis
    proof (cases "endswith m ''/''")
      case True
      then show ?thesis
        using notnum mp Cons.IH [OF r1 r2 Cons.prems(3) i1 i2, of acc] by (simp add: Let_def)
    next
      case False
      then have k: "kept m" using notnum by (simp add: kept_def)
      then obtain b where tT: "?t \<in> T" and o: "zip_open entries m = Some (Data b)"
        using Cons.prems(2) by auto
      have nd: "fs1 ?t \<noteq> Some Dir" using i2 tT by blast
      let ?fs2 = "fs1(?t \<mapsto> File b)"
      have j1: "\<forall>d \<in> D. \<not> is_file ?fs2 d"
      proof
        fix d assume d: "d \<in> D"
        then have "d \<noteq> ?t" using tT Cons.prems(3) by blast
        then show "\<not> is_file ?fs2 d" using i1 d by (simp add: is_file_def)
      qed
      have j2: "\<forall>t \<in> T. ?fs2 t \<noteq> Some Dir"
        using i2 by simp
      have step: "extract_loop dem entries (m # rest) fs acc
              = extract_loop dem entries rest ?fs2 (acc @ [path_str ?t])"
        using notnum False mp o nd by (simp add: Let_def)
      show ?thesis
        unfolding step
        using Cons.IH [OF r1 r2 Cons.prems(3) j1 j2, of "acc @ [path_str ?t]"] by blast
    qed
  qed
qed

lemma process_zip_overwrites:
  assumes z: "files w (path_of zip_path) = Some (File z)"
    and u: "unzip z = Some entries"
    and x: "extractable dl entries (files w)"
  shows "fst (process_zip unzip dl zip_path w)
           = (path_str (path_of zip_path), True,
              map (\<lambda>n. path_str (target dl n)) (kept_names entries))
     \<and> (\<forall>n \<in> set (kept_names entries). \<forall>b.
           zip_open entries n = Some (Data b) \<longrightarrow>
           files (snd (process_zip unzip dl zip_path w)) (target dl n) = Some (File b))"
proof -
  let ?dem = "dem_dir dl"
  let ?D = "set (made_dirs dl entries)"
  let ?T = "target dl ` set (kept_names entries)"
  have t: "target dl = path_join ?dem"
    by (rule ext) (simp add: target_def)
  have a1: "\<forall>n \<in> set (map fst entries). \<not> endswith n ''_num.tif'' \<longrightarrow>
             set (walk_steps [] (parent (path_join ?dem n))) \<subseteq> ?D"
    unfolding made_dirs_def t by auto
  have a2: "\<forall>n \<in> set (map fst entries). kept n \<longrightarrow>
             path_join ?dem n \<in> ?T \<and> (\<exists>b. zip_open entries n = Some (Data b))"
  proof (intro ballI impI)
    fix n assume n: "n \<in> set (map fst entries)" "kept n"
    then have k: "n \<in> set (kept_names entries)" by (simp add: kept_names_def)
    then have "case zip_open entries n of Some (Data b) \<Rightarrow> True | _ \<Rightarrow> False"
      using x unfolding extractable_def by blast
    then have "\<exists>b. zip_open entries n = Some (Data b)"
      by (auto split: option.splits entry_data.splits)
    then show "path_join ?dem n \<in> ?T \<and> (\<exists>b. zip_open entries n = Some (Data b))"
      using k unfolding t by blast
  qed
  have a3: "?D \<inter> ?T = {}"
    using x unfolding extractable_def by blast
  have a4: "\<forall>d \<in> ?D. \<not> is_file (files w) d"
    using x unfolding extractable_def by blast
  have a5: "\<forall>t \<in> ?T. files w t \<noteq> Some Dir"
    using x unfolding extractable_def by blast
  obtain ex fs' where l:
      "extract_loop ?dem entries (map fst entries) (files w) [] = (Inr ex, fs')"
    using extract_loop_succeeds [OF a1 a2 a3 a4 a5, of "[]"] by blast
  have r: "process_zip unzip dl zip_path w
             = ((path_str (path_of zip_path), True, ex),
                w\<lparr>events := events w @ [Extraction (path_str (path_of zip_path))], files := fs'\<rparr>)"
    using z u l by (simp add: process_zip_def Let_def exists_def)
  have e: "ex = map (\<lambda>n. path_str (target dl n)) (kept_names entries)"
    using extract_loop_success [OF l] unfolding t kept_names_def by simp
  have d: "distinct (map (path_join ?dem) (filter kept (map fst entries)))"
    using x unfolding extractable_def t kept_names_def by blast
  have c: "\<forall>n \<in> set (kept_names entries). \<forall>b.
           zip_open entries n = Some (Data b) \<longrightarrow> fs' (target dl n) = Some (File b)"
    unfolding t kept_names_def using extract_loop_content [OF l d] by blast
  show ?thesis unfolding r using e c by simp
qed

lemma reprocess_loop_split:
  "reprocess_loop unzip dl (pre @ z # post) c w =
     (let (c1, w1) = reprocess_loop unzip dl pre c w;
          ((_, success, _), w2) = process_zip unzip dl (path_str z) w1
      in reprocess_loop unzip dl post
           (if success then (fst c1 + 1, snd c1) else (fst c1, snd c1 + 1)) w2)"
proof (induction pre arbitrary: c w)
  case Nil
  show ?case by (cases c) (simp split: prod.split)
next
  case (Cons y pre)
  obtain a b where c: "c = (a, b)" by (cases c)
  obtain n ok ex w' where p: "process_zip unzip dl (path_str y) w = ((n, ok, ex), w')"
    by (metis surj_pair)
  show ?case
    unfolding c using p Cons.IH [of "(a + 1, b)" w'] Cons.IH [of "(a, b + 1)" w']
    by (cases ok) simp_all
qed

lemma stale_world_facts:
  "glob_one (files stale_world) (temp_dir example_dl) = [] @ [''data'', ''temp_zips'', ''a.zip''] # []"
  "path_str [''data'', ''temp_zips'', ''a.zip''] = ''data/temp_zips/a.zip''"
  "files stale_world (path_of ''data/temp_zips/a.zip'') = Some (File ''zip bytes'')"
  "files stale_world [''data'', ''aster30m'', ''a_dem.tif''] = Some (File ''STALE'')"
  by code_simp+

lemma stale_world_extractable: "extractable example_dl example_archive (files stale_world)"
  by code_simp

text \<open>
  Claim C9, as the code has it. \<^verbatim>\<open>reprocess_existing\<close> calls \<^verbatim>\<open>process_zip\<close> once for
  every zip file that the scan of the staging directory returns, in the order of the
  scan, and neither of them looks for the outputs of an earlier extraction:
  \<^item> the pass logs one extraction for every archive of the scan, and counts every archive
    as processed or as failed;
  \<^item> the lists \<^verbatim>\<open>downloaded_files\<close>, \<^verbatim>\<open>failed_downloads\<close> and \<^verbatim>\<open>processed_files\<close> of the
    downloader do not matter to the pass;
  \<^item> every archive of the scan is handed to \<^verbatim>\<open>process_zip\<close>, in the world that the
    archives before it have left;
  \<^item> \<^verbatim>\<open>process_zip\<close> on a readable archive, in a file system in which nothing stands in
    the way of the extraction, reports success, returns the targets of all kept entries,
    and every target holds the bytes of its entry afterwards, whatever it held before:
    an output of an earlier extraction is written again;
  \<^item> the extraction stage of \<^verbatim>\<open>download_batch\<close>, by contrast, does consult a record: it
    skips an archive that \<^verbatim>\<open>processed_files\<close> lists.
\<close>

theorem reprocess_existing_extracts_all:
  "events (snd (reprocess_existing unzip glob_zip dl w))
     = events w @ map (\<lambda>z. Extraction (path_str (path_of (path_str z))))
                      (glob_zip (files w) (temp_dir dl))
   \<and> fst (fst (reprocess_existing unzip glob_zip dl w))
       + snd (fst (reprocess_existing unzip glob_zip dl w))
       = length (glob_zip (files w) (temp_dir dl))
   \<and> reprocess_existing unzip glob_zip
        (dl\<lparr>downloaded_files := df, failed_downloads := fd, processed_files := pf\<rparr>) w
       = reprocess_existing unzip glob_zip dl w
   \<and> (glob_zip (files w) (temp_dir dl) = pre @ zf # post \<longrightarrow>
        (\<exists>c1 w1 c2. reprocess_loop unzip dl pre (0, 0) w = (c1, w1)
           \<and> reprocess_existing unzip glob_zip dl w
               = reprocess_loop unzip dl post c2 (snd (process_zip unzip dl (path_str zf) w1))))
   \<and> (files w (path_of zip_path) = Some (File z) \<and> unzip z = Some entries
        \<and> extractable dl entries (files w) \<longrightarrow>
        fst (process_zip unzip dl zip_path w)
          = (path_str (path_of zip_path), True,
             map (\<lambda>n. path_str (target dl n)) (kept_names entries))
        \<and> (\<forall>n \<in> set (kept_names entries). \<forall>b.
              zip_open entries n = Some (Data b) \<longrightarrow>
              files (snd (process_zip unzip dl zip_path w)) (target dl n) = Some (File b)))
   \<and> (zip_file \<in> set (processed_files dl) \<longrightarrow>
        extract_stage unzip (zip_file # rest) (dl, w) = extract_stage unzip rest (dl, w))"
proof -
  have l: "reprocess_loop unzip
        (dl\<lparr>downloaded_files := df, failed_downloads := fd, processed_files := pf\<rparr>) zs c w
       = reprocess_loop unzip dl zs c w" for zs c
    by (rule reprocess_loop_config) simp
  have a: "reprocess_existing unzip glob_zip
        (dl\<lparr>downloaded_files := df, failed_downloads := fd, processed_files := pf\<rparr>) w
       = reprocess_existing unzip glob_zip dl w"
    unfolding reprocess_existing_def l by simp
  have ev: "events (snd (reprocess_existing unzip glob_zip dl w))
     = events w @ map (\<lambda>z. Extraction (path_str (path_of (path_str z))))
                      (glob_zip (files w) (temp_dir dl))
   \<and> fst (fst (reprocess_existing unzip glob_zip dl w))
       + snd (fst (reprocess_existing unzip glob_zip dl w))
       = length (glob_zip (files w) (temp_dir dl))"
    using reprocess_loop_events [of unzip dl "glob_zip (files w) (temp_dir dl)" 0 0 w]
    by (simp add: reprocess_existing_def Let_def)
  have sp: "\<exists>c1 w1 c2. reprocess_loop unzip dl pre (0, 0) w = (c1, w1)
           \<and> reprocess_existing unzip glob_zip dl w
               = reprocess_loop unzip dl post c2 (snd (process_zip unzip dl (path_str zf) w1))"
    if g: "glob_zip (files w) (temp_dir dl) = pre @ zf # post"
  proof -
    obtain c1 w1 where p: "reprocess_loop unzip dl pre (0, 0) w = (c1, w1)"
      by (metis surj_pair)
    obtain n ok ex w2 where q: "process_zip unzip dl (path_str zf) w1 = ((n, ok, ex), w2)"
      by (metis surj_pair)
    have "reprocess_existing unzip glob_zip dl w
            = reprocess_loop unzip dl (pre @ zf # post) (0, 0) w"
      using g by (simp add: reprocess_existing_def Let_def)
    also have "\<dots> = reprocess_loop unzip dl post
           (if ok then (fst c1 + 1, snd c1) else (fst c1, snd c1 + 1))
           (snd (process_zip unzip dl (path_str zf) w1))"
      unfolding reprocess_loop_split using p q by simp
    finally show ?thesis using p by blast
  qed
  have ov: "fst (process_zip unzip dl zip_path w)
          = (path_str (path_of zip_path), True,
             map (\<lambda>n. path_str (target dl n)) (kept_names entries))
        \<and> (\<forall>n \<in> set (kept_names entries). \<forall>b.
              zip_open entries n = Some (Data b) \<longrightarrow>
              files (snd (process_zip unzip dl zip_path w)) (target dl n) = Some (File b))"
    if "files w (path_of zip_path) = Some (File z)" "unzip z = Some entries"
       "extractable dl entries (files w)"
    using that by (rule process_zip_overwrites)
  have sk: "extract_stage unzip (zip_file # rest) (dl, w) = extract_stage unzip rest (dl, w)"
    if "zip_file \<in> set (processed_files dl)"
    using that by simp
  from ev a sp ov sk show ?thesis by blast
qed

theorem reprocess_existing_extracts_all_witness:
  "files stale_world [''data'', ''aster30m'', ''a_dem.tif''] = Some (File ''STALE'')
   \<and> files (snd (reprocess_existing (\<lambda>b. Some example_archive) glob_one example_dl stale_world))
        [''data'', ''aster30m'', ''a_dem.tif''] = Some (File ''DEM'')
   \<and> extract_stage (\<lambda>b. Some example_archive) [''data/temp_zips/a.zip'']
        (example_dl\<lparr>processed_files := [''data/temp_zips/a.zip'']\<rparr>, stale_world)
       = (example_dl\<lparr>processed_files := [''data/temp_zips/a.zip'']\<rparr>, stale_world)"
proof -
  let ?u = "\<lambda>b::bytes. Some example_archive"
  let ?P = "process_zip ?u example_dl ''data/temp_zips/a.zip'' stale_world"
  note t = reprocess_existing_extracts_all [where unzip = ?u and dl = example_dl and w = stale_world]
  have "\<exists>c1 w1 c2. reprocess_loop ?u example_dl [] (0, 0) stale_world = (c1, w1)
           \<and> reprocess_existing ?u glob_one example_dl stale_world
               = reprocess_loop ?u example_dl [] c2
                   (snd (process_zip ?u example_dl (path_str [''data'', ''temp_zips'', ''a.zip'']) w1))"
    using t [where glob_zip = glob_one and pre = "[]" and post = "[]"
               and zf = "[''data'', ''temp_zips'', ''a.zip'']",
             THEN conjunct2, THEN conjunct2, THEN conjunct2, THEN conjunct1]
      stale_world_facts(1)
    by blast
  then have a: "snd (reprocess_existing ?u glob_one example_dl stale_world) = snd ?P"
    by (auto simp: stale_world_facts(2))
  have b: "files (snd ?P) [''data'', ''aster30m'', ''a_dem.tif''] = Some (File ''DEM'')"
    using t [where zip_path = "''data/temp_zips/a.zip''" and z = "''zip bytes''"
               and entries = example_archive,
             THEN conjunct2, THEN conjunct2, THEN conjunct2, THEN conjunct2, THEN conjunct1]
      stale_world_facts(3) stale_world_extractable
    by (simp add: example_archive_names)
  have c: "extract_stage ?u [''data/temp_zips/a.zip'']
        (example_dl\<lparr>processed_files := [''data/temp_zips/a.zip'']\<rparr>, stale_world)
       = (example_dl\<lparr>processed_files := [''data/temp_zips/a.zip'']\<rparr>, stale_world)"
    using reprocess_existing_extracts_all [where unzip = ?u and dl = "example_dl\<lparr>processed_files := [''data/temp_zips/a.zip'']\<rparr>"
               and w = stale_world and zip_file = "''data/temp_zips/a.zip''" and rest = "[]",
             THEN conjunct2, THEN conjunct2, THEN conjunct2, THEN conjunct2, THEN conjunct2]
    by simp
  from a b c stale_world_facts(4) show ?thesis by simp
qed

text \<open>
  The claim C9 as it is written has extraction unguarded, with no record of an earlier
  extraction consulted. The extraction loop of \<^verbatim>\<open>download_batch\<close> consults
  \<^verbatim>\<open>processed_files\<close>: in the run with \<^verbatim>\<open>--retry-failed\<close> the archive of the first URL
  is in \<^verbatim>\<open>downloaded_files\<close> in both passes and is extracted once. A further extraction
  stage extracts nothing, and extracts the archive when the record is emptied.
\<close>

theorem extract_stage_skips_processed:
  "downloaded_files (fst two_pass_run) = [''data/temp_zips/ASTGTMV003_N00E006.zip'']
   \<and> processed_files (fst two_pass_run) = [''data/temp_zips/ASTGTMV003_N00E006.zip'']
   \<and> failed_downloads (fst two_pass_run) = [missing_url]
   \<and> filter is_extraction (events (snd two_pass_run))
       = [Extraction ''data/temp_zips/ASTGTMV003_N00E006.zip'']
   \<and> length (filter is_request (events (snd two_pass_run))) = 7
   \<and> events (snd (extract_stage (\<lambda>b. Some example_archive)
        (downloaded_files (fst two_pass_run)) (fst two_pass_run, snd two_pass_run)))
       = events (snd two_pass_run)
   \<and> events (snd (extract_stage (\<lambda>b. Some example_archive)
        (downloaded_files (fst two_pass_run))
        ((fst two_pass_run)\<lparr>processed_files := []\<rparr>, snd two_pass_run)))
       = events (snd two_pass_run) @ [Extraction ''data/temp_zips/ASTGTMV003_N00E006.zip'']"
  by code_simp

section \<open>The decompressor\<close>




text \<open>
  Claim C10. When the decompressed sibling of a path does not exist, \<^verbatim>\<open>extract_gz_file\<close>
  returns a pair of a flag and a message, never an exception (the result is an \<open>Inr\<close>),
  and the flag is \<open>True\<close> only when the compressed path is a file whose stream
  decompressed to its end: every error is the value \<open>(False, message)\<close>.
\<close>

theorem extract_gz_file_no_exception:
  assumes "with_suffix_empty gz = Inr out" and "\<not> exists fs out"
  shows "\<exists>b msg fs'. extract_gz_file gunzip fs gz = (Inr (b, msg), fs')
           \<and> (b \<longleftrightarrow> (\<exists>z d. fs gz = Some (File z) \<and> gunzip z = (d, None)))"
proof (cases "fs gz")
  case None
  then show ?thesis using assms by (auto simp: extract_gz_file_def)
next
  case (Some n)
  show ?thesis
  proof (cases n)
    case Dir
    then show ?thesis using assms Some by (auto simp: extract_gz_file_def)
  next
    case (File z)
    have ne: "out \<noteq> gz" using assms(2) Some by (auto simp: exists_def)
    obtain d e where g: "gunzip z = (d, e)" by (cases "gunzip z")
    show ?thesis
      using assms Some File g ne
      by (cases e) (auto simp: extract_gz_file_def unlink_def)
  qed
qed

theorem extract_gz_file_no_exception_witness:
  "\<exists>b msg fs'. extract_gz_file (\<lambda>z. (''DA'', Some ''CRC check failed''))
      (Map.empty([''data'', ''N00E006.hgt.gz''] \<mapsto> File ''gz'')) [''data'', ''N00E006.hgt.gz'']
       = (Inr (b, msg), fs') \<and> \<not> b"
  using extract_gz_file_no_exception [where gz = "[''data'', ''N00E006.hgt.gz'']" and out = "[''data'', ''N00E006.hgt'']"
      and fs = "Map.empty([''data'', ''N00E006.hgt.gz''] \<mapsto> File ''gz'')"
      and gunzip = "\<lambda>z. (''DA'', Some ''CRC check failed'')"]
    with_suffix_hgt_gz [of "[''data'']" "''N00E006''"]
  by (simp add: exists_def)

section \<open>The batch scheduler\<close>

lemma shutdown_requested_mono:
  "shutdown_requested sig r \<Longrightarrow> r \<le> r' \<Longrightarrow> shutdown_requested sig r'"
  by (auto simp: shutdown_requested_def split: option.splits)

lemma run_all_state:
  "reads (run_all gunzip tasks st) = reads st
   \<and> started (run_all gunzip tasks st) = started st
   \<and> pauses (run_all gunzip tasks st) = pauses st
   \<and> ran (run_all gunzip tasks st) = ran st @ tasks"
  by (induction tasks arbitrary: st) auto

lemma collect_cancel:
  assumes "shutdown_requested sig (reads st)"
  shows "fst (collect gunzip sig inflight (gz_file # rest) st successful failed)
           = Inr (successful, failed)
       \<and> ran (snd (collect gunzip sig inflight (gz_file # rest) st successful failed))
           = ran st @ gz_file # take inflight rest
       \<and> reads (snd (collect gunzip sig inflight (gz_file # rest) st successful failed))
           = reads st + 1
       \<and> started (snd (collect gunzip sig inflight (gz_file # rest) st successful failed))
           = started st"
  using assms by (simp add: Let_def run_all_state split: prod.split)

lemma collect_state:
  "reads st \<le> reads (snd (collect gunzip sig inflight batch st successful failed))
   \<and> started (snd (collect gunzip sig inflight batch st successful failed)) = started st
   \<and> pauses (snd (collect gunzip sig inflight batch st successful failed)) = pauses st"
proof (induction batch arbitrary: st successful failed)
  case Nil
  show ?case by simp
next
  case (Cons gz_file rest)
  obtain res fs1 where e: "extract_gz_file gunzip (mz_files st) gz_file = (res, fs1)"
    by (metis surj_pair)
  let ?st1 = "st\<lparr>mz_files := fs1, ran := ran st @ [gz_file], reads := reads st + 1\<rparr>"
  show ?case
  proof (cases "shutdown_requested sig (reads st)")
    case True
    then show ?thesis using e by (simp add: Let_def run_all_state)
  next
    case False
    show ?thesis
    proof (cases res)
      case (Inl x)
      then show ?thesis using e False by (simp add: Let_def run_all_state)
    next
      case (Inr r)
      obtain success result where r: "r = (success, result)" by (cases r)
      show ?thesis
        using e False Inr r Cons.IH [of ?st1 "successful + 1" failed]
          Cons.IH [of ?st1 successful "failed @ [result]"]
        by (cases success) (auto simp: Let_def)
    qed
  qed
qed

lemma batch_loop_stops:
  assumes "shutdown_requested sig (reads st)"
  shows "batch_loop batch_size gunzip sig inflight gz_files total_batches (batch_num # later) st totals
           = (Inr totals, st\<lparr>reads := reads st + 1\<rparr>)"
  using assms by (cases totals) simp

lemma batch_loop_started:
  "reads st \<le> reads (snd (batch_loop batch_size gunzip sig inflight gz_files total_batches nums st totals))
   \<and> (\<exists>new.
         started (snd (batch_loop batch_size gunzip sig inflight gz_files total_batches nums st totals))
           = started st @ new
       \<and> (\<forall>x \<in> set new. reads st \<le> snd x \<and> \<not> shutdown_requested sig (snd x))
       \<and> map fst new = take (length new) nums)"
proof (induction nums arbitrary: st totals)
  case Nil
  show ?case by simp
next
  case (Cons batch_num later)
  obtain ts tf where t: "totals = (ts, tf)" by (cases totals)
  show ?case
  proof (cases "shutdown_requested sig (reads st)")
    case True
    then show ?thesis by (simp add: t)
  next
    case False
    let ?st1 = "st\<lparr>reads := reads st + 1, started := started st @ [(batch_num, reads st)]\<rparr>"
    let ?start = "(batch_num - 1) * batch_size"
    let ?end = "min (?start + batch_size) (length gz_files)"
    let ?batch = "take (?end - ?start) (drop ?start gz_files)"
    obtain res st2 where pb: "process_batch gunzip sig inflight ?batch ?st1 = (res, st2)"
      by (metis surj_pair)
    have c: "reads ?st1 \<le> reads st2" "started st2 = started ?st1"
      using collect_state [of ?st1 gunzip sig inflight ?batch 0 "[]"] pb
      by (simp_all add: process_batch_def)
    show ?thesis
    proof (cases res)
      case (Inl e)
      then have r: "batch_loop batch_size gunzip sig inflight gz_files total_batches
                   (batch_num # later) st totals = (Inl e, st2)"
        using False pb by (simp add: t Let_def)
      have "started st2 = started st @ [(batch_num, reads st)]
          \<and> (\<forall>x \<in> set [(batch_num, reads st)]. reads st \<le> snd x \<and> \<not> shutdown_requested sig (snd x))
          \<and> map fst [(batch_num, reads st)] = take (length [(batch_num, reads st)]) (batch_num # later)"
        using c False by simp
      moreover have "reads st \<le> reads st2" using c by simp
      ultimately show ?thesis unfolding r by (simp only: snd_conv) blast
    next
      case (Inr sf)
      obtain successful failed where sf: "sf = (successful, failed)" by (cases sf)
      let ?st3 = "if batch_num < total_batches
                  then (if \<not> shutdown_requested sig (reads st2)
                        then st2\<lparr>reads := reads st2 + 1, pauses := pauses st2 + 1\<rparr>
                        else st2\<lparr>reads := reads st2 + 1\<rparr>)
                  else st2"
      have r: "batch_loop batch_size gunzip sig inflight gz_files total_batches
                   (batch_num # later) st totals
               = batch_loop batch_size gunzip sig inflight gz_files total_batches later ?st3
                   (ts + successful, tf @ failed)"
        using False pb Inr sf by (simp add: t Let_def)
      have s3: "reads st2 \<le> reads ?st3" "started ?st3 = started st @ [(batch_num, reads st)]"
        using c by auto
      obtain new where n:
        "started (snd (batch_loop batch_size gunzip sig inflight gz_files total_batches later ?st3
                   (ts + successful, tf @ failed))) = started ?st3 @ new"
        "\<forall>x \<in> set new. reads ?st3 \<le> snd x \<and> \<not> shutdown_requested sig (snd x)"
        "map fst new = take (length new) later"
        "reads ?st3 \<le> reads (snd (batch_loop batch_size gunzip sig inflight gz_files total_batches later ?st3
                   (ts + successful, tf @ failed)))"
        using Cons.IH [of ?st3 "(ts + successful, tf @ failed)"] by blast
      have le: "reads st \<le> reads ?st3" using c s3 by simp
      have "started (snd (batch_loop batch_size gunzip sig inflight gz_files total_batches
                   (batch_num # later) st totals)) = started st @ ((batch_num, reads st) # new)
          \<and> (\<forall>x \<in> set ((batch_num, reads st) # new). reads st \<le> snd x \<and> \<not> shutdown_requested sig (snd x))
          \<and> map fst ((batch_num, reads st) # new) = take (length ((batch_num, reads st) # new)) (batch_num # later)"
        unfolding r using n s3 False le by auto
      moreover have "reads st \<le> reads (snd (batch_loop batch_size gunzip sig inflight gz_files total_batches
                   (batch_num # later) st totals))"
        unfolding r using n(4) le by simp
      ultimately show ?thesis by blast
    qed
  qed
qed

lemma collect_raises:
  "fst (collect gunzip sig inflight batch st successful failed) = Inl e \<Longrightarrow>
   reads st < reads (snd (collect gunzip sig inflight batch st successful failed))
   \<and> \<not> shutdown_requested sig
         (reads (snd (collect gunzip sig inflight batch st successful failed)) - 1)"
proof (induction batch arbitrary: st successful failed)
  case Nil
  then show ?case by simp
next
  case (Cons gz_file rest)
  obtain res fs1 where x: "extract_gz_file gunzip (mz_files st) gz_file = (res, fs1)"
    by (metis surj_pair)
  let ?st1 = "st\<lparr>mz_files := fs1, ran := ran st @ [gz_file], reads := reads st + 1\<rparr>"
  have down: "\<not> shutdown_requested sig (reads st)"
    using Cons.prems x by (auto simp: Let_def)
  show ?case
  proof (cases res)
    case (Inl x1)
    then show ?thesis using x down by (simp add: Let_def run_all_state)
  next
    case (Inr r)
    obtain success result where r: "r = (success, result)" by (cases r)
    show ?thesis
    proof (cases success)
      case True
      then have c: "collect gunzip sig inflight (gz_file # rest) st successful failed
                  = collect gunzip sig inflight rest ?st1 (successful + 1) failed"
        using x down Inr r by (simp add: Let_def)
      show ?thesis
        using Cons.IH [of ?st1 "successful + 1" failed] Cons.prems unfolding c by simp
    next
      case False
      then have c: "collect gunzip sig inflight (gz_file # rest) st successful failed
                  = collect gunzip sig inflight rest ?st1 successful (failed @ [result])"
        using x down Inr r by (simp add: Let_def)
      show ?thesis
        using Cons.IH [of ?st1 successful "failed @ [result]"] Cons.prems unfolding c by simp
    qed
  qed
qed

lemma batch_loop_raises:
  "fst (batch_loop batch_size gunzip sig inflight gz_files total_batches nums st totals) = Inl e \<Longrightarrow>
   reads st < reads (snd (batch_loop batch_size gunzip sig inflight gz_files total_batches nums st totals))
   \<and> \<not> shutdown_requested sig
         (reads (snd (batch_loop batch_size gunzip sig inflight gz_files total_batches nums st totals)) - 1)"
proof (induction nums arbitrary: st totals)
  case Nil
  then show ?case by simp
next
  case (Cons batch_num later)
  obtain ts tf where t: "totals = (ts, tf)" by (cases totals)
  have down: "\<not> shutdown_requested sig (reads st)"
    using Cons.prems by (auto simp: t)
  let ?st1 = "st\<lparr>reads := reads st + 1, started := started st @ [(batch_num, reads st)]\<rparr>"
  let ?start = "(batch_num - 1) * batch_size"
  let ?end = "min (?start + batch_size) (length gz_files)"
  let ?batch = "take (?end - ?start) (drop ?start gz_files)"
  obtain res st2 where pb: "process_batch gunzip sig inflight ?batch ?st1 = (res, st2)"
    by (metis surj_pair)
  have c: "reads ?st1 \<le> reads st2"
    using collect_state [of ?st1 gunzip sig inflight ?batch 0 "[]"] pb
    by (simp add: process_batch_def)
  show ?case
  proof (cases res)
    case (Inl x)
    then have r: "batch_loop batch_size gunzip sig inflight gz_files total_batches
                   (batch_num # later) st totals = (Inl x, st2)"
      using down pb by (simp add: t Let_def)
    have "\<not> shutdown_requested sig (reads st2 - 1)"
      using collect_raises [of gunzip sig inflight ?batch ?st1 0 "[]" x] pb Inl
      by (simp add: process_batch_def)
    then show ?thesis unfolding r using c by simp
  next
    case (Inr sf)
    obtain successful failed where sf: "sf = (successful, failed)" by (cases sf)
    let ?st3 = "if batch_num < total_batches
                then (if \<not> shutdown_requested sig (reads st2)
                      then st2\<lparr>reads := reads st2 + 1, pauses := pauses st2 + 1\<rparr>
                      else st2\<lparr>reads := reads st2 + 1\<rparr>)
                else st2"
    have r: "batch_loop batch_size gunzip sig inflight gz_files total_batches
                 (batch_num # later) st totals
             = batch_loop batch_size gunzip sig inflight gz_files total_batches later ?st3
                 (ts + successful, tf @ failed)"
      using down pb Inr sf by (simp add: t Let_def)
    have le: "reads st \<le> reads ?st3" using c by simp
    show ?thesis
      using Cons.IH [of ?st3 "(ts + successful, tf @ failed)"] Cons.prems le
      unfolding r by simp
  qed
qed

lemma main_with_interrupted:
  assumes run: "main_with batch_size gunzip sig inflight rglob_gz st = (res, st')"
  shows "(\<exists>q. reads st \<le> q \<and> q < reads st' \<and> shutdown_requested sig q) \<longrightarrow>
           (\<exists>s f. res = Inr (Summary s f (length (rglob_gz (mz_files st'))) True))"
proof (cases "\<not> exists (mz_files st) [''data'', ''mapzen''] \<or> rglob_gz (mz_files st) = []")
  case True
  then have "st' = st"
    using run by (auto simp: main_with_def Let_def split: if_splits)
  then show ?thesis by auto
next
  case False
  let ?gz = "rglob_gz (mz_files st)"
  let ?total = "(length ?gz + batch_size - 1) div batch_size"
  let ?L = "batch_loop batch_size gunzip sig inflight ?gz ?total [1 ..< ?total + 1] st (0, [])"
  obtain r stl where l: "run_batches batch_size gunzip sig inflight ?gz st = (r, stl)"
    by (metis surj_pair)
  then have L: "?L = (r, stl)" by (simp add: run_batches_def Let_def)
  show ?thesis
  proof (cases r)
    case (Inl e)
    then have s: "st' = stl \<and> res = Inl e"
      using run False l by (auto simp: main_with_def Let_def)
    have "fst ?L = Inl e" using L Inl by simp
    then have d: "\<not> shutdown_requested sig (reads stl - 1)"
      using batch_loop_raises [of batch_size gunzip sig inflight ?gz ?total "[1 ..< ?total + 1]" st "(0, [])" e] L
      by simp
    have "\<not> shutdown_requested sig q" if "q < reads stl" for q
    proof -
      have "q \<le> reads stl - 1" using that by simp
      then show ?thesis using d shutdown_requested_mono [of sig q "reads stl - 1"] by blast
    qed
    then show ?thesis using s by auto
  next
    case (Inr t)
    obtain ts tf where t: "t = (ts, tf)" by (cases t)
    have r: "st' = stl\<lparr>reads := reads stl + 1\<rparr>"
      "res = Inr (Summary ts tf (length (rglob_gz (mz_files stl))) (shutdown_requested sig (reads stl)))"
      using run False l Inr t by (auto simp: main_with_def Let_def)
    show ?thesis
      unfolding r using shutdown_requested_mono [of sig _ "reads stl"] by auto
  qed
qed

lemma interrupted_run_reads: "reads (snd interrupted_run) = 5 \<and> reads start_state = 0"
  by code_simp

lemma take_upt_from_one: "n \<le> t \<Longrightarrow> take n [1 ..< t + 1] = [1 ..< n + 1]"
  using take_upt [of 1 n "t + 1"] by (simp del: upt_Suc)

lemma interrupted_run_report: "fst interrupted_run = Inr (Summary 0 [] 1 True)"
  by code_simp

lemma interrupted_run_started: "started (snd interrupted_run) = [(1, 0)]"
  by code_simp

lemma interrupted_run_ran: "ran (snd interrupted_run) = [tile_a, tile_b]"
  by code_simp

text \<open>
  Claim C7. For a run of \<^verbatim>\<open>main\<close>, with batches of any size (the script's are of
  1000 files), that starts with no batch begun:
  \<^item> every batch that is started is started at a read of the flag before which, and at
    which, the flag was down: once the flag is raised, at the head of a batch or during
    a batch, no later batch is started;
  \<^item> the batches started are the batches 1, 2, ... in this order;
  \<^item> the summary gives as the remaining work the number of compressed files that the
    scan finds at the end, and says that the script was interrupted when any read of the
    run has seen the flag raised;
  \<^item> a run in which some read has seen the flag raised ends in that summary: it does not
    end in an exception or in one of the two early messages, the summary says that the
    script was interrupted, and the remaining work it gives is the number of compressed
    files that the scan finds at the end;
  \<^item> when the flag is raised at the head of a batch, the batch loop ends there with the
    totals it has, and that batch and the later ones are not started;
  \<^item> when the flag is raised at the completion of a task, \<^verbatim>\<open>process_batch\<close> stops
    collecting: it returns the counts it has, and of the remaining tasks only those
    already in flight run; the others are cancelled.
\<close>

theorem shutdown_stops_batches:
  assumes run: "main_with batch_size gunzip sig inflight rglob_gz st = (res, st')"
    and fresh: "started st = []"
  shows "(\<forall>x \<in> set (started st'). \<forall>q \<le> snd x. \<not> shutdown_requested sig q)
     \<and> map fst (started st') = [1 ..< length (started st') + 1]
     \<and> (\<forall>s f rem intr. res = Inr (Summary s f rem intr) \<longrightarrow>
           rem = length (rglob_gz (mz_files st'))
         \<and> ((\<exists>q < reads st'. shutdown_requested sig q) \<longrightarrow> intr))
     \<and> (shutdown_requested sig (reads st2) \<longrightarrow>
           batch_loop batch_size gunzip sig inflight gz_files total_batches (batch_num # later) st2 totals
             = (Inr totals, st2\<lparr>reads := reads st2 + 1\<rparr>))
     \<and> (shutdown_requested sig (reads st2) \<longrightarrow>
           fst (collect gunzip sig inflight (gz_file # rest) st2 successful failed)
             = Inr (successful, failed)
         \<and> ran (snd (collect gunzip sig inflight (gz_file # rest) st2 successful failed))
             = ran st2 @ gz_file # take inflight rest)
     \<and> ((\<exists>q. reads st \<le> q \<and> q < reads st' \<and> shutdown_requested sig q) \<longrightarrow>
           (\<exists>s f. res = Inr (Summary s f (length (rglob_gz (mz_files st'))) True)))"
proof -
  let ?gz = "rglob_gz (mz_files st)"
  let ?total = "(length ?gz + batch_size - 1) div batch_size"
  let ?L = "batch_loop batch_size gunzip sig inflight ?gz ?total [1 ..< ?total + 1] st (0, [])"
  have stop: "shutdown_requested sig (reads st2) \<longrightarrow>
           batch_loop batch_size gunzip sig inflight gz_files total_batches (batch_num # later) st2 totals
             = (Inr totals, st2\<lparr>reads := reads st2 + 1\<rparr>)"
    by (simp add: batch_loop_stops)
  have cancel: "shutdown_requested sig (reads st2) \<longrightarrow>
           fst (collect gunzip sig inflight (gz_file # rest) st2 successful failed)
             = Inr (successful, failed)
         \<and> ran (snd (collect gunzip sig inflight (gz_file # rest) st2 successful failed))
             = ran st2 @ gz_file # take inflight rest"
    using collect_cancel [of sig st2 gunzip inflight gz_file rest successful failed] by blast
  obtain new where n: "started (snd ?L) = started st @ new"
      "\<forall>x \<in> set new. reads st \<le> snd x \<and> \<not> shutdown_requested sig (snd x)"
      "map fst new = take (length new) [1 ..< ?total + 1]"
    using batch_loop_started [of st batch_size gunzip sig inflight ?gz ?total "[1 ..< ?total + 1]" "(0, [])"]
    by blast
  have "length (map fst new) = length (take (length new) [1 ..< ?total + 1])"
    using n(3) by simp
  then have "length new \<le> ?total" by (simp del: upt_Suc)
  then have n3: "map fst new = [1 ..< length new + 1]"
    using n(3) take_upt_from_one [of "length new" ?total] by (simp del: upt_Suc)
  have n2: "\<forall>x \<in> set new. \<forall>q \<le> snd x. \<not> shutdown_requested sig q"
    using n(2) shutdown_requested_mono by blast
  have ends: "(\<exists>q. reads st \<le> q \<and> q < reads st' \<and> shutdown_requested sig q) \<longrightarrow>
           (\<exists>s f. res = Inr (Summary s f (length (rglob_gz (mz_files st'))) True))"
    using run by (rule main_with_interrupted)
  have core: "(\<forall>x \<in> set (started st'). \<forall>q \<le> snd x. \<not> shutdown_requested sig q)
     \<and> map fst (started st') = [1 ..< length (started st') + 1]
     \<and> (\<forall>s f rem intr. res = Inr (Summary s f rem intr) \<longrightarrow>
           rem = length (rglob_gz (mz_files st'))
         \<and> ((\<exists>q < reads st'. shutdown_requested sig q) \<longrightarrow> intr))"
  proof (cases "\<not> exists (mz_files st) [''data'', ''mapzen''] \<or> ?gz = []")
    case True
    then have "st' = st \<and> (res = Inr NoDataDir \<or> res = Inr NothingToDo)"
      using run by (auto simp: main_with_def Let_def split: if_splits)
    then show ?thesis using fresh by auto
  next
    case False
    obtain r stl where l: "run_batches batch_size gunzip sig inflight ?gz st = (r, stl)"
      by (metis surj_pair)
    then have L: "?L = (r, stl)" by (simp add: run_batches_def Let_def)
    have sl: "started stl = new" using n(1) L fresh by simp
    show ?thesis
    proof (cases r)
      case (Inl e)
      then have "st' = stl \<and> res = Inl e"
        using run False l by (auto simp: main_with_def Let_def)
      then show ?thesis using sl n2 n3 by auto
    next
      case (Inr t)
      obtain ts tf where t: "t = (ts, tf)" by (cases t)
      have r: "st' = stl\<lparr>reads := reads stl + 1\<rparr>"
        "res = Inr (Summary ts tf (length (rglob_gz (mz_files stl))) (shutdown_requested sig (reads stl)))"
        using run False l Inr t by (auto simp: main_with_def Let_def)
      have rep: "\<forall>s f rem intr. res = Inr (Summary s f rem intr) \<longrightarrow>
           rem = length (rglob_gz (mz_files st'))
         \<and> ((\<exists>q < reads st'. shutdown_requested sig q) \<longrightarrow> intr)"
        unfolding r using shutdown_requested_mono [of sig _ "reads stl"] by auto
      have "started st' = new" using r sl by simp
      then show ?thesis using n2 n3 rep by auto
    qed
  qed
  from core stop cancel ends show ?thesis by blast
qed

theorem shutdown_stops_batches_witness:
  "fst interrupted_run = Inr (Summary 0 [] 1 True)
   \<and> length (scan (mz_files (snd interrupted_run))) = 1
   \<and> map fst (started (snd interrupted_run)) = [1]
   \<and> \<not> shutdown_requested (Some 1) 0
   \<and> batch_loop 2 gunzip_ok (Some 1) 1 [tile_a, tile_b, tile_c] 2 [2] (start_state\<lparr>reads := 3\<rparr>) (0, [])
       = (Inr (0, []), start_state\<lparr>reads := 4\<rparr>)
   \<and> ran (snd (collect gunzip_ok (Some 1) 1 [tile_a, tile_b, tile_c] (start_state\<lparr>reads := 1\<rparr>) 0 []))
       = [tile_a, tile_b]
   \<and> shutdown_requested (Some 1) 1 \<and> reads (snd interrupted_run) = 5
   \<and> (\<exists>s f. fst interrupted_run
          = Inr (Summary s f (length (scan (mz_files (snd interrupted_run)))) True))"
proof -
  have run: "main_with 2 gunzip_ok (Some 1) 1 scan start_state
               = (fst interrupted_run, snd interrupted_run)"
    by (simp add: interrupted_run_def)
  have fresh: "started start_state = []"
    by (simp add: start_state_def)
  note t = shutdown_stops_batches [OF run fresh]
  have a: "length (scan (mz_files (snd interrupted_run))) = 1"
    using t [THEN conjunct2, THEN conjunct2, THEN conjunct1, THEN spec, THEN spec, THEN spec,
             THEN spec, of 0 "[]" 1 True]
      interrupted_run_report
    by simp
  have b: "map fst (started (snd interrupted_run)) = [1]"
    using t [THEN conjunct2, THEN conjunct1] interrupted_run_started by simp
  have c: "\<not> shutdown_requested (Some 1) 0"
    using t [THEN conjunct1] interrupted_run_started by simp
  have d: "batch_loop 2 gunzip_ok (Some 1) 1 [tile_a, tile_b, tile_c] 2 [2] (start_state\<lparr>reads := 3\<rparr>) (0, [])
       = (Inr (0, []), start_state\<lparr>reads := 4\<rparr>)"
    using t [THEN conjunct2, THEN conjunct2, THEN conjunct2, THEN conjunct1,
             of "start_state\<lparr>reads := 3\<rparr>" "[tile_a, tile_b, tile_c]" 2 2 "[]" "(0, [])"]
    by (simp add: shutdown_requested_def)
  have e: "ran (snd (collect gunzip_ok (Some 1) 1 [tile_a, tile_b, tile_c] (start_state\<lparr>reads := 1\<rparr>) 0 []))
       = [tile_a, tile_b]"
    using t [THEN conjunct2, THEN conjunct2, THEN conjunct2, THEN conjunct2, THEN conjunct1,
             of "start_state\<lparr>reads := 1\<rparr>" tile_a "[tile_b, tile_c]" 0 "[]"]
    by (simp add: shutdown_requested_def start_state_def)
  have up: "shutdown_requested (Some 1) 1"
    by (simp add: shutdown_requested_def)
  have "\<exists>q. reads start_state \<le> q \<and> q < reads (snd interrupted_run)
          \<and> shutdown_requested (Some 1) q"
    using up interrupted_run_reads by (intro exI [of _ 1]) simp
  then have f: "\<exists>s f. fst interrupted_run
          = Inr (Summary s f (length (scan (mz_files (snd interrupted_run)))) True)"
    using t [THEN conjunct2, THEN conjunct2, THEN conjunct2, THEN conjunct2, THEN conjunct2]
    by blast
  from interrupted_run_report a b c d e f up interrupted_run_reads show ?thesis by simp
qed


end
